theory Spec2Isabelle
  imports Main "HOL-Library.Sublist"
begin

section \<open>Text\<close>

text \<open>
  Utterances are Python \<open>str\<close> values. They are modelled as \<open>string\<close>, each \<open>char\<close>
  standing for one code point below 256 (the Latin-1 range), which covers every character
  of the command table and of the two fallback patterns.

  \<open>str.lower\<close> on that range maps \<open>A\<close>..\<open>Z\<close> (65..90) and the accented capitals
  192..222, the multiplication sign 215 excepted, to the code point 32 above, and leaves
  every other character alone. No character of the range lowers to more than one.
\<close>

definition lower_char :: "char \<Rightarrow> char" where
  "lower_char c =
     (let n = (of_char c :: nat)
      in if (65 \<le> n \<and> n \<le> 90) \<or> (192 \<le> n \<and> n \<le> 222 \<and> n \<noteq> 215)
         then char_of (n + 32) else c)"

definition lower :: "string \<Rightarrow> string" where
  "lower text = map lower_char text"

text \<open>
  The regular-expression class \<open>\w\<close> of a \<open>str\<close> pattern: the underscore and every
  character for which \<open>str.isalnum\<close> holds. Below 256 these are the digits, the ASCII
  letters, the ordinal indicators 170 and 186, the micro sign 181, the superscript digits
  178, 179 and 185, the fractions 188..190, and the accented letters 192..255 without the
  multiplication sign 215 and the division sign 247.
\<close>

definition is_word_char :: "char \<Rightarrow> bool" where
  "is_word_char c =
     (let n = (of_char c :: nat)
      in (48 \<le> n \<and> n \<le> 57) \<or> (65 \<le> n \<and> n \<le> 90) \<or> n = 95 \<or> (97 \<le> n \<and> n \<le> 122)
         \<or> n = 170 \<or> n = 178 \<or> n = 179 \<or> n = 181 \<or> n = 185 \<or> n = 186
         \<or> (188 \<le> n \<and> n \<le> 190)
         \<or> (192 \<le> n \<and> n \<noteq> 215 \<and> n \<noteq> 247))"

section \<open>The command table\<close>

text \<open>
  \<open>VoiceController.command_map\<close>: a dict from tuples of phrases to endpoints. A dict
  iterates in insertion order and the eight keys are distinct, so it is the association
  list of its entries in the order of the source.
\<close>

definition command_map :: "(string list \<times> string) list" where
  "command_map =
     [([''turn everything on'', ''turn all on'', ''all on''], ''all/on''),
      ([''turn everything off'', ''turn all off'', ''all off''], ''all/off''),
      ([''led on'', ''turn on led'', ''turn led on''], ''led/on''),
      ([''led off'', ''turn off led'', ''turn led off''], ''led/off''),
      ([''light on'', ''turn on light'', ''turn light on''], ''light/on''),
      ([''light off'', ''turn off light'', ''turn light off''], ''light/off''),
      ([''fan on'', ''turn on fan''], ''fan/on''),
      ([''fan off'', ''turn off fan''], ''fan/off'')]"

section \<open>Regular expressions\<close>

text \<open>
  The two patterns of \<open>_match_command\<close> are sequences of four kinds of items: the
  assertion \<open>\b\<close>, a group of alternative literals, a literal, and \<open>.*\<close>. An item is
  matched at a position of the whole text (the assertion looks at the character before the
  position) and yields the positions where its match may end. \<open>re\<close> backtracks over all of
  them, so \<open>re.search\<close> finds a match iff some start position has some end position.
\<close>

datatype regex_item = Word_boundary | Group "string list" | Literal string | Dot_star

definition newline :: char where
  "newline = char_of (10 :: nat)"

text \<open>\<open>\b\<close>: exactly one of the characters before and at the position is a word character;
  beyond either end of the text there is none.\<close>

definition at_word_boundary :: "string \<Rightarrow> nat \<Rightarrow> bool" where
  "at_word_boundary s i =
     ((0 < i \<and> i \<le> length s \<and> is_word_char (s ! (i - 1)))
        \<noteq> (i < length s \<and> is_word_char (s ! i)))"

text \<open>\<open>.*\<close> takes any number of characters other than the newline.\<close>

fun item_ends :: "regex_item \<Rightarrow> string \<Rightarrow> nat \<Rightarrow> nat list" where
  "item_ends Word_boundary s i = (if at_word_boundary s i then [i] else [])"
| "item_ends (Group ws) s i = map (\<lambda>w. i + length w) (filter (\<lambda>w. prefix w (drop i s)) ws)"
| "item_ends (Literal w) s i = (if prefix w (drop i s) then [i + length w] else [])"
| "item_ends Dot_star s i =
     map (\<lambda>k. i + k) (rev [0 ..< Suc (length (takeWhile (\<lambda>c. c \<noteq> newline) (drop i s)))])"

fun seq_ends :: "regex_item list \<Rightarrow> string \<Rightarrow> nat \<Rightarrow> nat list" where
  "seq_ends [] s i = [i]"
| "seq_ends (x # xs) s i = concat (map (seq_ends xs s) (item_ends x s i))"

definition re_search :: "regex_item list \<Rightarrow> string \<Rightarrow> bool" where
  "re_search p s = list_ex (\<lambda>i. seq_ends p s i \<noteq> []) [0 ..< Suc (length s)]"

text \<open>\<^verbatim>\<open>\b(turn|switch) .* all .* on\b\<close> and \<^verbatim>\<open>\b(turn|switch) .* all .* off\b\<close>.\<close>

definition pattern_all_on :: "regex_item list" where
  "pattern_all_on =
     [Word_boundary, Group [''turn'', ''switch''], Literal '' '', Dot_star,
      Literal '' all '', Dot_star, Literal '' on'', Word_boundary]"

definition pattern_all_off :: "regex_item list" where
  "pattern_all_off =
     [Word_boundary, Group [''turn'', ''switch''], Literal '' '', Dot_star,
      Literal '' all '', Dot_star, Literal '' off'', Word_boundary]"

section \<open>The command matcher\<close>

text \<open>The inner loop \<open>for p in phrases: if p in text: return endpoint\<close>: whether it returns.
  \<open>p in text\<close> is \<^const>\<open>sublist\<close>.\<close>

fun scan_phrases :: "string list \<Rightarrow> string \<Rightarrow> bool" where
  "scan_phrases [] text = False"
| "scan_phrases (p # ps) text = (if sublist p text then True else scan_phrases ps text)"

text \<open>The outer loop over \<open>command_map.items()\<close>.\<close>

fun scan_table :: "(string list \<times> string) list \<Rightarrow> string \<Rightarrow> string option" where
  "scan_table [] text = None"
| "scan_table ((phrases, endpoint) # rest) text =
     (if scan_phrases phrases text then Some endpoint else scan_table rest text)"

definition match_command :: "string \<Rightarrow> string option" where
  "match_command text0 =
     (let text = lower text0
      in case scan_table command_map text of
           Some endpoint \<Rightarrow> Some endpoint
         | None \<Rightarrow>
             if re_search pattern_all_on text then Some ''all/on''
             else if re_search pattern_all_off text then Some ''all/off''
             else None)"

section \<open>Declarative reading of the patterns\<close>

text \<open>
  What an item matches, said without positions: the text before the match, the matched
  part and the text after it. It is used to state which texts \<^const>\<open>re_search\<close> accepts.
\<close>

fun item_span :: "regex_item \<Rightarrow> string \<Rightarrow> string \<Rightarrow> string \<Rightarrow> bool" where
  "item_span Word_boundary before m after =
     (m = [] \<and>
      ((before \<noteq> [] \<and> is_word_char (last before)) \<noteq> (after \<noteq> [] \<and> is_word_char (hd after))))"
| "item_span (Group ws) before m after = (m \<in> set ws)"
| "item_span (Literal w) before m after = (m = w)"
| "item_span Dot_star before m after = (newline \<notin> set m)"

fun seq_span :: "regex_item list \<Rightarrow> string \<Rightarrow> string \<Rightarrow> string \<Rightarrow> bool" where
  "seq_span [] before m after = (m = [])"
| "seq_span (x # xs) before m after =
     (\<exists>m1 m2. m = m1 @ m2 \<and> item_span x before m1 (m2 @ after) \<and>
        seq_span xs (before @ m1) m2 after)"

section \<open>The controller and its collaborators\<close>

text \<open>
  The controller object: of its fields, \<open>esp32_ip\<close> and \<open>running\<close> are state of the program;
  the recognizer, the microphone and the HTTP session are collaborators, whose answers are
  inputs of the model. \<open>__init__\<close> sets \<open>running\<close> to \<open>True\<close>.
\<close>

record controller =
  esp32_ip :: string
  running :: bool

definition init :: "string \<Rightarrow> controller" where
  "init ip = \<lparr>esp32_ip = ip, running = True\<rparr>"

text \<open>
  What the program does to the outside, in the order it does it: a log record (by level),
  a call of \<open>session.get\<close> (by URL), a call of \<open>time.sleep\<close> (in milliseconds: \<open>0.1\<close> is
  \<open>100\<close>), a call of \<open>recognizer.listen\<close> followed by \<open>recognize_google\<close>, and a call of
  \<open>adjust_for_ambient_noise\<close> (in milliseconds). The call of \<open>_match_command\<close> has no
  effect of its own; it is recorded so that a trace says which texts the loop hands to
  the matcher.
\<close>

datatype log_level = Debug | Info | Warning | Error

datatype effect =
    Log log_level
  | Http_get string
  | Sleep nat
  | Listen
  | Calibrate nat
  | Match string

text \<open>
  The exceptions a collaborator can raise, by the classes the code distinguishes:
  \<open>requests.RequestException\<close> (with all its subclasses: connection errors, timeouts,
  exhausted retries, \<open>HTTPError\<close>), \<open>sr.UnknownValueError\<close>, \<open>sr.RequestError\<close>, and any
  other exception.
\<close>

datatype exn = Request_exception | Unknown_value_error | Request_error | Other_exception

text \<open>
  The answer to one call of \<open>session.get\<close>: a response with its status code, or an
  exception. The retries of the session's adapter happen inside that call.
  \<open>Response.raise_for_status\<close> of the \<open>requests\<close> library raises \<open>HTTPError\<close> for the
  status codes 400 to 599 and returns for every other.
\<close>

datatype get_outcome = Response nat | Get_raises exn

definition raise_for_status :: "nat \<Rightarrow> exn + unit" where
  "raise_for_status status =
     (if 400 \<le> status \<and> status < 600 then Inl Request_exception else Inr ())"

definition DEFAULT_PAUSE :: nat where
  "DEFAULT_PAUSE = 100"

section \<open>The dispatcher\<close>

definition url_of :: "controller \<Rightarrow> string \<Rightarrow> string" where
  "url_of c path = ''http://'' @ esp32_ip c @ ''/'' @ path"

text \<open>The body of the \<open>try\<close> of \<open>send_command\<close>: its effects, and the exception that leaves
  it or the normal end.\<close>

definition try_get :: "controller \<Rightarrow> get_outcome \<Rightarrow> string \<Rightarrow> effect list \<times> (exn + unit)" where
  "try_get c outcome path =
     (case outcome of
        Get_raises e \<Rightarrow> ([Log Debug, Http_get (url_of c path)], Inl e)
      | Response status \<Rightarrow>
          (case raise_for_status status of
             Inl e \<Rightarrow> ([Log Debug, Http_get (url_of c path)], Inl e)
           | Inr _ \<Rightarrow> ([Log Debug, Http_get (url_of c path), Log Info], Inr ())))"

text \<open>\<open>send_command\<close>: \<open>except requests.RequestException\<close> logs a warning and returns
  \<open>False\<close>; any other exception leaves the function.\<close>

definition send_command :: "controller \<Rightarrow> get_outcome \<Rightarrow> string \<Rightarrow> effect list \<times> (exn + bool)" where
  "send_command c outcome path =
     (case try_get c outcome path of
        (fx, Inr _) \<Rightarrow> (fx, Inr True)
      | (fx, Inl e) \<Rightarrow>
          if e = Request_exception then (fx @ [Log Warning], Inr False) else (fx, Inl e))"

section \<open>Listening\<close>

datatype listen_outcome = Heard string | Listen_raises exn

text \<open>\<open>listen_once\<close>: the outcome is what \<open>recognize_google\<close> returns or raises. The result
  is the recognized text, lowered, or \<open>None\<close> after one of the two exceptions the function
  handles; any other exception leaves it.\<close>

definition listen_once :: "listen_outcome \<Rightarrow> effect list \<times> (exn + string option)" where
  "listen_once outcome =
     (case outcome of
        Heard text \<Rightarrow> ([Listen, Log Info], Inr (Some (lower text)))
      | Listen_raises e \<Rightarrow>
          if e = Unknown_value_error then ([Listen, Log Debug], Inr None)
          else if e = Request_error then ([Listen, Log Error], Inr None)
          else ([Listen], Inl e))"

section \<open>The control loop\<close>

text \<open>\<open>stop\<close>, the handler of the interrupt signal.\<close>

definition stop :: "controller \<Rightarrow> effect list \<times> controller" where
  "stop c = ([Log Info], c\<lparr>running := False\<rparr>)"

text \<open>
  What the outside contributes to one iteration of the loop: the answer of the recognizer,
  the answer of the device to a request for each endpoint path (an iteration requests a
  path at most once), and whether the interrupt handler ran during the iteration.
\<close>

record cycle =
  heard :: listen_outcome
  answers :: "string \<Rightarrow> get_outcome"
  stop_signal :: bool

text \<open>The loops \<open>for e in (...): self.send_command(e); time.sleep(0.1)\<close>. The result of
  \<open>send_command\<close> is not looked at; an exception leaving it ends the loop.\<close>

fun send_all :: "controller \<Rightarrow> (string \<Rightarrow> get_outcome) \<Rightarrow> string list \<Rightarrow> effect list \<times> (exn + unit)" where
  "send_all c ans [] = ([], Inr ())"
| "send_all c ans (e # es) =
     (case send_command c (ans e) e of
        (fx, Inl x) \<Rightarrow> (fx, Inl x)
      | (fx, Inr _) \<Rightarrow>
          (case send_all c ans es of (fx', r) \<Rightarrow> (fx @ [Sleep 100] @ fx', r)))"

text \<open>The part of the loop body after a match: the composite endpoints are expanded, any
  other endpoint is sent as it is.\<close>

definition dispatch :: "controller \<Rightarrow> (string \<Rightarrow> get_outcome) \<Rightarrow> string \<Rightarrow> effect list \<times> (exn + unit)" where
  "dispatch c ans endpoint =
     (if endpoint = ''all/on'' then
        (case send_all c ans [''led/on'', ''light/on'', ''projector/on'', ''fan/on''] of
           (fx, r) \<Rightarrow> (Log Info # fx, r))
      else if endpoint = ''all/off'' then
        (case send_all c ans [''led/off'', ''light/off'', ''projector/off'', ''fan/off''] of
           (fx, r) \<Rightarrow> (Log Info # fx, r))
      else
        (case send_command c (ans endpoint) endpoint of
           (fx, Inl x) \<Rightarrow> (fx, Inl x)
         | (fx, Inr _) \<Rightarrow> (fx, Inr ())))"

text \<open>One iteration of the body of \<open>while self.running\<close>. \<open>not text\<close> holds for \<open>None\<close> and
  for the empty string, \<open>not endpoint\<close> likewise.\<close>

definition run_cycle :: "controller \<Rightarrow> nat \<Rightarrow> cycle \<Rightarrow> effect list \<times> (exn + unit)" where
  "run_cycle c pause cy =
     (case listen_once (heard cy) of
        (fx, Inl x) \<Rightarrow> (fx, Inl x)
      | (fx, Inr None) \<Rightarrow> (fx @ [Sleep pause], Inr ())
      | (fx, Inr (Some text)) \<Rightarrow>
          if text = [] then (fx @ [Sleep pause], Inr ())
          else
            (case match_command text of
               None \<Rightarrow> (fx @ [Match text], Inr ())
             | Some endpoint \<Rightarrow>
                 if endpoint = [] then (fx @ [Match text], Inr ())
                 else
                   (case dispatch c (answers cy) endpoint of
                      (fx', r) \<Rightarrow> (fx @ [Match text] @ fx', r))))"

text \<open>
  The loop over a finite script of iterations. It ends \<open>Stopped\<close> when it finds the flag
  false at the top of an iteration, \<open>Raised\<close> when an exception leaves the body, and is
  still \<open>Listening\<close> when the script is used up with the flag true. The handler changes
  the flag at some point of an iteration; the loop reads it next at the top of the
  following one.
\<close>

datatype run_result = Stopped | Raised exn | Listening

fun run_loop :: "controller \<Rightarrow> nat \<Rightarrow> cycle list \<Rightarrow> controller \<times> effect list \<times> run_result" where
  "run_loop c pause [] = (c, [], if running c then Listening else Stopped)"
| "run_loop c pause (cy # rest) =
     (if \<not> running c then (c, [], Stopped)
      else
        (case run_cycle c pause cy of
           (fx, Inl x) \<Rightarrow> (if stop_signal cy then snd (stop c) else c, fx, Raised x)
         | (fx, Inr _) \<Rightarrow>
             (case run_loop (if stop_signal cy then snd (stop c) else c) pause rest of
                (c', fx', r) \<Rightarrow> (c', fx @ fx', r))))"

text \<open>\<open>run\<close>: calibration, then the loop. \<open>adjust_ambient\<close> logs and calls the
  recognizer's calibration, which may raise (no microphone); the exception leaves \<open>run\<close>.\<close>

definition adjust_ambient :: "nat \<Rightarrow> exn option \<Rightarrow> effect list \<times> (exn + unit)" where
  "adjust_ambient duration failure =
     (case failure of
        None \<Rightarrow> ([Log Info, Calibrate duration], Inr ())
      | Some x \<Rightarrow> ([Log Info, Calibrate duration], Inl x))"

definition run :: "controller \<Rightarrow> nat \<Rightarrow> nat \<Rightarrow> exn option \<Rightarrow> cycle list \<Rightarrow> controller \<times> effect list \<times> run_result" where
  "run c ambient_duration pause failure script =
     (case adjust_ambient ambient_duration failure of
        (fx, Inl x) \<Rightarrow> (c, Log Info # fx, Raised x)
      | (fx, Inr _) \<Rightarrow>
          (case run_loop c pause script of
             (c', fx', r) \<Rightarrow> (c', Log Info # fx @ [Log Info] @ fx', r)))"

section \<open>Reading a trace\<close>

text \<open>The URLs requested and the texts handed to the matcher, in order.\<close>

fun gets :: "effect list \<Rightarrow> string list" where
  "gets [] = []"
| "gets (Http_get u # fx) = u # gets fx"
| "gets (_ # fx) = gets fx"

fun matched :: "effect list \<Rightarrow> string list" where
  "matched [] = []"
| "matched (Match t # fx) = t # matched fx"
| "matched (_ # fx) = matched fx"

text \<open>The endpoints that name one device and one state: the members of the two
  expansions of \<open>run\<close>.\<close>

definition concrete_endpoints :: "string list" where
  "concrete_endpoints =
     [''led/on'', ''light/on'', ''projector/on'', ''fan/on'',
      ''led/off'', ''light/off'', ''projector/off'', ''fan/off'']"

section \<open>Properties of the command matcher\<close>

text \<open>The two loops of the table walk, read declaratively.\<close>

lemma scan_phrases_iff: "scan_phrases ps utt \<longleftrightarrow> (\<exists>p\<in>set ps. sublist p utt)"
  by (induction ps) auto

lemma scan_table_endpoint:
  "scan_table tbl utt = Some e \<Longrightarrow> e \<in> snd ` set tbl"
  by (induction tbl utt rule: scan_table.induct) (auto split: if_splits)

lemma scan_table_None_iff:
  "scan_table tbl utt = None \<longleftrightarrow> (\<forall>entry\<in>set tbl. \<not> scan_phrases (fst entry) utt)"
  by (induction tbl utt rule: scan_table.induct) auto

lemma scan_table_first_hit:
  "i < length tbl \<Longrightarrow> scan_phrases (fst (tbl ! i)) utt \<Longrightarrow>
   \<forall>k<i. \<not> scan_phrases (fst (tbl ! k)) utt \<Longrightarrow>
   scan_table tbl utt = Some (snd (tbl ! i))"
proof (induction tbl utt arbitrary: i rule: scan_table.induct)
  case (1 utt)
  then show ?case by simp
next
  case (2 phrases endpoint rest utt)
  show ?case
  proof (cases i)
    case 0
    with 2 show ?thesis by simp
  next
    case (Suc n)
    with 2(3,4) have miss: "\<not> scan_phrases phrases utt" by auto
    have "scan_table rest utt = Some (snd (rest ! n))"
    proof (rule 2(1)[OF miss])
      show "n < length rest" using 2(2) Suc by simp
      show "scan_phrases (fst (rest ! n)) utt" using 2(3) Suc by simp
      show "\<forall>k<n. \<not> scan_phrases (fst (rest ! k)) utt"
      proof (intro allI impI)
        fix k assume "k < n"
        then have "Suc k < i" using Suc by simp
        with 2(4) have "\<not> scan_phrases (fst (((phrases, endpoint) # rest) ! Suc k)) utt" by blast
        then show "\<not> scan_phrases (fst (rest ! k)) utt" by simp
      qed
    qed
    with miss Suc show ?thesis by simp
  qed
qed

lemma match_command_table:
  "scan_table command_map (lower utt) = Some e \<Longrightarrow> match_command utt = Some e"
  by (simp add: match_command_def)

lemma match_command_fallback:
  "scan_table command_map (lower utt) = None \<Longrightarrow>
   match_command utt =
     (if re_search pattern_all_on (lower utt) then Some ''all/on''
      else if re_search pattern_all_off (lower utt) then Some ''all/off'' else None)"
  by (simp add: match_command_def)

lemma match_command_cases:
  "match_command utt = None \<or> match_command utt \<in> Some ` snd ` set command_map"
proof (cases "scan_table command_map (lower utt)")
  case None
  then show ?thesis
    by (simp add: match_command_fallback command_map_def)
next
  case (Some e)
  then show ?thesis
    using scan_table_endpoint[OF Some] by (simp add: match_command_table)
qed

text \<open>
  C1. The test suite and the specification expect \<open>projector/off\<close> for the utterance
  \<open>projector off now\<close>. The command table has no projector entry and neither fallback
  pattern applies, so the matcher returns \<open>None\<close> there.
\<close>

theorem projector_off_unmatched: "match_command ''projector off now'' = None"
  by code_simp

text \<open>
  C7. The literal fixtures that do not name the projector: \<open>LED on\<close> gives \<open>led/on\<close>,
  \<open>turn led off\<close> gives \<open>led/off\<close>, \<open>please turn the light on\<close> gives \<open>light/on\<close>,
  \<open>fan on please\<close> gives \<open>fan/on\<close>, \<open>turn everything on\<close> gives \<open>all/on\<close> and
  \<open>can you turn everything off\<close> gives \<open>all/off\<close>.
\<close>

theorem match_literal_fixtures:
  "match_command ''LED on'' = Some ''led/on'' \<and>
   match_command ''turn led off'' = Some ''led/off'' \<and>
   match_command ''please turn the light on'' = Some ''light/on'' \<and>
   match_command ''fan on please'' = Some ''fan/on'' \<and>
   match_command ''turn everything on'' = Some ''all/on'' \<and>
   match_command ''can you turn everything off'' = Some ''all/off''"
  by code_simp

text \<open>The endpoints of the table.\<close>

lemma command_map_endpoints:
  "snd ` set command_map =
     {''all/on'', ''all/off'', ''led/on'', ''led/off'',
      ''light/on'', ''light/off'', ''fan/on'', ''fan/off''}"
  unfolding command_map_def by (simp only: list.set image_insert image_empty snd_conv)

text \<open>
  C9. Over all utterances the matcher returns \<open>None\<close> or one of exactly eight endpoints,
  each of which some utterance reaches: \<open>all/on\<close>, \<open>all/off\<close>, \<open>led/on\<close>, \<open>led/off\<close>,
  \<open>light/on\<close>, \<open>light/off\<close>, \<open>fan/on\<close>, \<open>fan/off\<close>. It never returns \<open>projector/on\<close> or
  \<open>projector/off\<close>.
\<close>

theorem match_command_range:
  "range match_command =
     insert None (Some ` {''all/on'', ''all/off'', ''led/on'', ''led/off'',
       ''light/on'', ''light/off'', ''fan/on'', ''fan/off''}) \<and>
   Some ''projector/on'' \<notin> range match_command \<and>
   Some ''projector/off'' \<notin> range match_command"
proof -
  let ?E = "{''all/on'', ''all/off'', ''led/on'', ''led/off'',
       ''light/on'', ''light/off'', ''fan/on'', ''fan/off''}"
  have sub: "match_command utt \<in> insert None (Some ` ?E)" for utt
    using match_command_cases[of utt] unfolding command_map_endpoints by blast
  have e0: "match_command ''play music'' = None" by code_simp
  have e1: "match_command ''all on'' = Some ''all/on''" by code_simp
  have e2: "match_command ''all off'' = Some ''all/off''" by code_simp
  have e3: "match_command ''led on'' = Some ''led/on''" by code_simp
  have e4: "match_command ''led off'' = Some ''led/off''" by code_simp
  have e5: "match_command ''light on'' = Some ''light/on''" by code_simp
  have e6: "match_command ''light off'' = Some ''light/off''" by code_simp
  have e7: "match_command ''fan on'' = Some ''fan/on''" by code_simp
  have e8: "match_command ''fan off'' = Some ''fan/off''" by code_simp
  have r: "match_command u = v \<Longrightarrow> v \<in> range match_command" for u v
    by blast
  have sup: "insert None (Some ` ?E) \<subseteq> range match_command"
    unfolding image_insert image_empty insert_subset
    using r[OF e0] r[OF e1] r[OF e2] r[OF e3] r[OF e4] r[OF e5] r[OF e6] r[OF e7] r[OF e8]
    by (intro conjI empty_subsetI)
  have eq: "range match_command = insert None (Some ` ?E)"
  proof (rule equalityI)
    show "range match_command \<subseteq> insert None (Some ` ?E)"
      using sub by (rule image_subsetI)
    show "insert None (Some ` ?E) \<subseteq> range match_command" by (rule sup)
  qed
  have n1: "Some ''projector/on'' \<notin> insert None (Some ` ?E)" by simp
  have n2: "Some ''projector/off'' \<notin> insert None (Some ` ?E)" by simp
  show ?thesis
    using eq n1 n2 by (simp only: simp_thms)
qed

text \<open>
  C8. When no phrase of the table occurs in the lowered utterance and neither fallback
  pattern matches it, the matcher returns \<open>None\<close>, an ordinary value of its result type.
  In particular \<open>play music\<close> and the empty utterance give \<open>None\<close>.
\<close>

theorem no_match_is_None:
  "((\<forall>entry\<in>set command_map. \<forall>p\<in>set (fst entry). \<not> sublist p (lower utt)) \<and>
    \<not> re_search pattern_all_on (lower utt) \<and> \<not> re_search pattern_all_off (lower utt)
      \<longrightarrow> match_command utt = None) \<and>
   match_command ''play music'' = None \<and>
   match_command '''' = None"
proof -
  have a: "match_command utt = None"
    if "\<forall>entry\<in>set command_map. \<forall>p\<in>set (fst entry). \<not> sublist p (lower utt)"
      and "\<not> re_search pattern_all_on (lower utt)"
      and "\<not> re_search pattern_all_off (lower utt)"
  proof -
    from that(1) have "scan_table command_map (lower utt) = None"
      by (simp add: scan_table_None_iff scan_phrases_iff)
    with that(2,3) show ?thesis by (simp add: match_command_fallback)
  qed
  have b: "match_command ''play music'' = None" by code_simp
  have c: "match_command '''' = None" by code_simp
  from a b c show ?thesis by blast
qed

text \<open>The hypotheses hold for \<open>Play some music\<close>.\<close>

theorem no_match_is_None_witness:
  "list_all (\<lambda>entry. list_all (\<lambda>p. \<not> sublist p (lower ''Play some music'')) (fst entry)) command_map \<and>
   \<not> re_search pattern_all_on (lower ''Play some music'') \<and>
   \<not> re_search pattern_all_off (lower ''Play some music'') \<and>
   match_command ''Play some music'' = None"
proof -
  have h1: "list_all (\<lambda>entry. list_all (\<lambda>p. \<not> sublist p (lower ''Play some music'')) (fst entry)) command_map"
    by code_simp
  have h2: "\<not> re_search pattern_all_on (lower ''Play some music'')" by code_simp
  have h3: "\<not> re_search pattern_all_off (lower ''Play some music'')" by code_simp
  from h1 have h1': "\<forall>entry\<in>set command_map. \<forall>p\<in>set (fst entry). \<not> sublist p (lower ''Play some music'')"
    by (simp add: list_all_iff)
  from no_match_is_None[of "''Play some music''"] h1' h2 h3
  have "match_command ''Play some music'' = None" by blast
  with h1 h2 h3 show ?thesis by blast
qed

section \<open>Properties of the patterns\<close>

text \<open>The positions computed by \<^const>\<open>seq_ends\<close> are exactly the decompositions that
  \<^const>\<open>seq_span\<close> describes.\<close>

lemma takeWhile_length_iff:
  "k \<le> length (takeWhile P xs) \<longleftrightarrow> k \<le> length xs \<and> (\<forall>c\<in>set (take k xs). P c)"
proof (induction xs arbitrary: k)
  case Nil
  then show ?case by simp
next
  case (Cons x xs)
  show ?case
  proof (cases k)
    case 0
    then show ?thesis by simp
  next
    case (Suc n)
    then show ?thesis using Cons[of n] by auto
  qed
qed

lemma split_at_iff:
  "(\<exists>m r. b = m @ r \<and> length m = k \<and> Q m) \<longleftrightarrow> k \<le> length b \<and> Q (take k b)"
proof
  assume "\<exists>m r. b = m @ r \<and> length m = k \<and> Q m"
  then obtain m r where "b = m @ r" "length m = k" "Q m" by blast
  then show "k \<le> length b \<and> Q (take k b)" by auto
next
  assume "k \<le> length b \<and> Q (take k b)"
  then have "b = take k b @ drop k b \<and> length (take k b) = k \<and> Q (take k b)" by simp
  then show "\<exists>m r. b = m @ r \<and> length m = k \<and> Q m" by blast
qed

lemma boundary_append:
  "at_word_boundary (a @ b) (length a) \<longleftrightarrow>
     ((a \<noteq> [] \<and> is_word_char (last a)) \<noteq> (b \<noteq> [] \<and> is_word_char (hd b)))"
proof -
  have l: "(a @ b) ! (length a - 1) = last a" if "a \<noteq> []"
    using that by (simp add: nth_append last_conv_nth)
  have h: "(a @ b) ! length a = hd b" if "b \<noteq> []"
    using that by (simp add: nth_append hd_conv_nth)
  show ?thesis
    unfolding at_word_boundary_def using l h by (cases "a = []"; cases "b = []") auto
qed

lemma item_ends_iff:
  "j \<in> set (item_ends x (a @ b) (length a)) \<longleftrightarrow>
     (\<exists>m r. b = m @ r \<and> j = length a + length m \<and> item_span x a m r)"
proof (cases x)
  case Word_boundary
  then show ?thesis by (auto simp: boundary_append)
next
  case (Group ws)
  then show ?thesis by (auto simp: prefix_def)
next
  case (Literal w)
  then show ?thesis by (auto simp: prefix_def)
next
  case Dot_star
  have "j \<in> set (item_ends Dot_star (a @ b) (length a)) \<longleftrightarrow>
          length a \<le> j \<and> j - length a \<le> length (takeWhile (\<lambda>c. c \<noteq> newline) b)"
    by (auto simp: image_iff intro: exI[of _ "j - length a"] bexI[of _ "j - length a"])
  also have "\<dots> \<longleftrightarrow> length a \<le> j \<and> j - length a \<le> length b \<and> newline \<notin> set (take (j - length a) b)"
    by (auto simp: takeWhile_length_iff)
  also have "\<dots> \<longleftrightarrow> length a \<le> j \<and> (\<exists>m r. b = m @ r \<and> length m = j - length a \<and> newline \<notin> set m)"
    by (simp only: split_at_iff)
  also have "\<dots> \<longleftrightarrow> (\<exists>m r. b = m @ r \<and> j = length a + length m \<and> newline \<notin> set m)"
    by auto
  finally show ?thesis using Dot_star by simp
qed

lemma seq_ends_iff:
  "j \<in> set (seq_ends p (a @ b) (length a)) \<longleftrightarrow>
     (\<exists>m r. b = m @ r \<and> j = length a + length m \<and> seq_span p a m r)"
proof (induction p arbitrary: a b)
  case Nil
  then show ?case by auto
next
  case (Cons x xs)
  have "j \<in> set (seq_ends (x # xs) (a @ b) (length a)) \<longleftrightarrow>
          (\<exists>k\<in>set (item_ends x (a @ b) (length a)). j \<in> set (seq_ends xs (a @ b) k))"
    by auto
  also have "\<dots> \<longleftrightarrow>
      (\<exists>m1 r1. b = m1 @ r1 \<and> item_span x a m1 r1 \<and> j \<in> set (seq_ends xs ((a @ m1) @ r1) (length (a @ m1))))"
  proof
    assume "\<exists>k\<in>set (item_ends x (a @ b) (length a)). j \<in> set (seq_ends xs (a @ b) k)"
    then obtain k where k: "k \<in> set (item_ends x (a @ b) (length a))"
      and j: "j \<in> set (seq_ends xs (a @ b) k)" by blast
    from k obtain m1 r1 where "b = m1 @ r1" "k = length a + length m1" "item_span x a m1 r1"
      unfolding item_ends_iff by blast
    with j show "\<exists>m1 r1. b = m1 @ r1 \<and> item_span x a m1 r1 \<and>
        j \<in> set (seq_ends xs ((a @ m1) @ r1) (length (a @ m1)))"
      by auto
  next
    assume "\<exists>m1 r1. b = m1 @ r1 \<and> item_span x a m1 r1 \<and>
        j \<in> set (seq_ends xs ((a @ m1) @ r1) (length (a @ m1)))"
    then obtain m1 r1 where b: "b = m1 @ r1" and sp: "item_span x a m1 r1"
      and j: "j \<in> set (seq_ends xs ((a @ m1) @ r1) (length (a @ m1)))" by blast
    from b sp have "length a + length m1 \<in> set (item_ends x (a @ b) (length a))"
      unfolding item_ends_iff by blast
    moreover from j b have "j \<in> set (seq_ends xs (a @ b) (length a + length m1))" by simp
    ultimately show "\<exists>k\<in>set (item_ends x (a @ b) (length a)). j \<in> set (seq_ends xs (a @ b) k)"
      by blast
  qed
  also have "\<dots> \<longleftrightarrow>
      (\<exists>m1 r1. b = m1 @ r1 \<and> item_span x a m1 r1 \<and>
         (\<exists>m2 r. r1 = m2 @ r \<and> j = length (a @ m1) + length m2 \<and> seq_span xs (a @ m1) m2 r))"
    by (simp only: Cons.IH)
  also have "\<dots> \<longleftrightarrow> (\<exists>m r. b = m @ r \<and> j = length a + length m \<and> seq_span (x # xs) a m r)"
  proof
    assume "\<exists>m1 r1. b = m1 @ r1 \<and> item_span x a m1 r1 \<and>
         (\<exists>m2 r. r1 = m2 @ r \<and> j = length (a @ m1) + length m2 \<and> seq_span xs (a @ m1) m2 r)"
    then obtain m1 r1 m2 r where b: "b = m1 @ r1" and it: "item_span x a m1 r1"
      and r1: "r1 = m2 @ r" and j: "j = length (a @ m1) + length m2"
      and sp: "seq_span xs (a @ m1) m2 r" by blast
    from it r1 sp have "seq_span (x # xs) a (m1 @ m2) r"
      unfolding seq_span.simps by blast
    moreover from b r1 have "b = (m1 @ m2) @ r" by simp
    moreover from j have "j = length a + length (m1 @ m2)" by simp
    ultimately show "\<exists>m r. b = m @ r \<and> j = length a + length m \<and> seq_span (x # xs) a m r"
      by blast
  next
    assume "\<exists>m r. b = m @ r \<and> j = length a + length m \<and> seq_span (x # xs) a m r"
    then obtain m r where b: "b = m @ r" and j: "j = length a + length m"
      and sp: "seq_span (x # xs) a m r" by blast
    from sp obtain m1 m2 where m: "m = m1 @ m2" and it: "item_span x a m1 (m2 @ r)"
      and sp2: "seq_span xs (a @ m1) m2 r"
      unfolding seq_span.simps by blast
    from b m have "b = m1 @ (m2 @ r)" by simp
    moreover from j m have "j = length (a @ m1) + length m2" by simp
    ultimately show "\<exists>m1 r1. b = m1 @ r1 \<and> item_span x a m1 r1 \<and>
         (\<exists>m2 r. r1 = m2 @ r \<and> j = length (a @ m1) + length m2 \<and> seq_span xs (a @ m1) m2 r)"
      using it sp2 by blast
  qed
  finally show ?case .
qed

lemma re_search_iff:
  "re_search p s \<longleftrightarrow> (\<exists>a m r. s = a @ m @ r \<and> seq_span p a m r)"
proof
  assume "re_search p s"
  then obtain i where mem: "i \<in> set [0 ..< Suc (length s)]" and ne: "seq_ends p s i \<noteq> []"
    unfolding re_search_def list_ex_iff by blast
  from mem have i: "i \<le> length s" by auto
  from ne obtain j where j: "j \<in> set (seq_ends p s i)"
    by (cases "seq_ends p s i") auto
  have "j \<in> set (seq_ends p (take i s @ drop i s) (length (take i s)))"
    using i j by (simp add: min_def)
  then obtain m r where "drop i s = m @ r" "seq_span p (take i s) m r"
    unfolding seq_ends_iff by blast
  then have "s = take i s @ m @ r \<and> seq_span p (take i s) m r"
    by (metis append_take_drop_id)
  then show "\<exists>a m r. s = a @ m @ r \<and> seq_span p a m r" by blast
next
  assume "\<exists>a m r. s = a @ m @ r \<and> seq_span p a m r"
  then obtain a m r where s: "s = a @ m @ r" and sp: "seq_span p a m r" by blast
  then have "length a + length m \<in> set (seq_ends p (a @ (m @ r)) (length a))"
    unfolding seq_ends_iff by blast
  then have "seq_ends p s (length a) \<noteq> []" using s by auto
  moreover have "length a \<in> set [0 ..< Suc (length s)]" using s by simp
  ultimately show "re_search p s"
    unfolding re_search_def list_ex_iff by blast
qed

lemma word_chars:
  "is_word_char CHR ''t''" "is_word_char CHR ''s''" "is_word_char CHR ''n''" "is_word_char CHR ''f''"
  by (simp_all add: is_word_char_def)

lemma seq_span_Boundary:
  "seq_span (Word_boundary # xs) a m r \<longleftrightarrow>
     ((a \<noteq> [] \<and> is_word_char (last a)) \<noteq> (m @ r \<noteq> [] \<and> is_word_char (hd (m @ r)))) \<and>
     seq_span xs a m r"
  by auto

lemma seq_span_Literal:
  "seq_span (Literal w # xs) a m r \<longleftrightarrow> (\<exists>m2. m = w @ m2 \<and> seq_span xs (a @ w) m2 r)"
  by auto

lemma seq_span_Group:
  "seq_span (Group ws # xs) a m r \<longleftrightarrow> (\<exists>w\<in>set ws. \<exists>m2. m = w @ m2 \<and> seq_span xs (a @ w) m2 r)"
  by auto

lemma seq_span_Dot_star:
  "seq_span (Dot_star # xs) a m r \<longleftrightarrow>
     (\<exists>f m2. m = f @ m2 \<and> newline \<notin> set f \<and> seq_span xs (a @ f) m2 r)"
  by auto

lemma framed_span:
  assumes ws: "\<forall>w\<in>set ws. w \<noteq> [] \<and> is_word_char (hd w)"
    and t: "tail \<noteq> [] \<and> is_word_char (last tail)"
  shows "seq_span [Word_boundary, Group ws, Literal l1, Dot_star, Literal l2, Dot_star,
            Literal tail, Word_boundary] a m r \<longleftrightarrow>
     (\<exists>verb f1 f2. m = verb @ l1 @ f1 @ l2 @ f2 @ tail \<and> verb \<in> set ws \<and>
        newline \<notin> set f1 \<and> newline \<notin> set f2 \<and>
        (a = [] \<or> \<not> is_word_char (last a)) \<and> (r = [] \<or> \<not> is_word_char (hd r)))"
    (is "?L \<longleftrightarrow> ?R")
proof
  assume L: ?L
  from L have b0: "(a \<noteq> [] \<and> is_word_char (last a)) \<noteq> (m @ r \<noteq> [] \<and> is_word_char (hd (m @ r)))"
    and s1: "seq_span [Group ws, Literal l1, Dot_star, Literal l2, Dot_star, Literal tail,
               Word_boundary] a m r"
    unfolding seq_span_Boundary by blast+
  from s1 obtain verb m2 where v: "verb \<in> set ws" and m: "m = verb @ m2"
    and s2: "seq_span [Literal l1, Dot_star, Literal l2, Dot_star, Literal tail, Word_boundary]
               (a @ verb) m2 r"
    unfolding seq_span_Group by blast
  from s2 obtain m3 where m2: "m2 = l1 @ m3"
    and s3: "seq_span [Dot_star, Literal l2, Dot_star, Literal tail, Word_boundary]
               ((a @ verb) @ l1) m3 r"
    unfolding seq_span_Literal by blast
  from s3 obtain f1 m4 where m3: "m3 = f1 @ m4" and f1: "newline \<notin> set f1"
    and s4: "seq_span [Literal l2, Dot_star, Literal tail, Word_boundary]
               (((a @ verb) @ l1) @ f1) m4 r"
    unfolding seq_span_Dot_star by blast
  from s4 obtain m5 where m4: "m4 = l2 @ m5"
    and s5: "seq_span [Dot_star, Literal tail, Word_boundary]
               ((((a @ verb) @ l1) @ f1) @ l2) m5 r"
    unfolding seq_span_Literal by blast
  from s5 obtain f2 m6 where m5: "m5 = f2 @ m6" and f2: "newline \<notin> set f2"
    and s6: "seq_span [Literal tail, Word_boundary]
               (((((a @ verb) @ l1) @ f1) @ l2) @ f2) m6 r"
    unfolding seq_span_Dot_star by blast
  from s6 obtain m7 where m6: "m6 = tail @ m7"
    and s7: "seq_span [Word_boundary] ((((((a @ verb) @ l1) @ f1) @ l2) @ f2) @ tail) m7 r"
    unfolding seq_span_Literal by blast
  from s7 have m7: "m7 = []"
    and b1: "(((((((a @ verb) @ l1) @ f1) @ l2) @ f2) @ tail) \<noteq> [] \<and>
              is_word_char (last ((((((a @ verb) @ l1) @ f1) @ l2) @ f2) @ tail)))
             \<noteq> (m7 @ r \<noteq> [] \<and> is_word_char (hd (m7 @ r)))"
    unfolding seq_span_Boundary seq_span.simps(1) by blast+
  have meq: "m = verb @ l1 @ f1 @ l2 @ f2 @ tail"
    using m m2 m3 m4 m5 m6 m7 by simp
  from v ws have vw: "verb \<noteq> []" "is_word_char (hd verb)" by auto
  from vw m have "m @ r \<noteq> []" "hd (m @ r) = hd verb" by auto
  with b0 vw have pre: "a = [] \<or> \<not> is_word_char (last a)" by auto
  from t have "last ((((((a @ verb) @ l1) @ f1) @ l2) @ f2) @ tail) = last tail" by simp
  with b1 t m7 have post: "r = [] \<or> \<not> is_word_char (hd r)" by auto
  from meq v f1 f2 pre post show ?R by blast
next
  assume ?R
  then obtain verb f1 f2 where m: "m = verb @ l1 @ f1 @ l2 @ f2 @ tail" and v: "verb \<in> set ws"
    and f1: "newline \<notin> set f1" and f2: "newline \<notin> set f2"
    and pre: "a = [] \<or> \<not> is_word_char (last a)" and post: "r = [] \<or> \<not> is_word_char (hd r)"
    by blast
  from v ws have vw: "verb \<noteq> []" "is_word_char (hd verb)" by auto
  from vw m have h: "m @ r \<noteq> []" "hd (m @ r) = hd verb" by auto
  from h vw pre
  have b0: "(a \<noteq> [] \<and> is_word_char (last a)) \<noteq> (m @ r \<noteq> [] \<and> is_word_char (hd (m @ r)))"
    by auto
  from t have l: "last ((((((a @ verb) @ l1) @ f1) @ l2) @ f2) @ tail) = last tail"
    and ne: "((((((a @ verb) @ l1) @ f1) @ l2) @ f2) @ tail) \<noteq> []" by simp_all
  from l ne t post
  have b1: "(((((((a @ verb) @ l1) @ f1) @ l2) @ f2) @ tail) \<noteq> [] \<and>
              is_word_char (last ((((((a @ verb) @ l1) @ f1) @ l2) @ f2) @ tail)))
             \<noteq> ([] @ r \<noteq> [] \<and> is_word_char (hd ([] @ r)))"
    by auto
  have s7: "seq_span [Word_boundary] ((((((a @ verb) @ l1) @ f1) @ l2) @ f2) @ tail) [] r"
    unfolding seq_span_Boundary seq_span.simps(1) using b1 by blast
  have s6: "seq_span [Literal tail, Word_boundary]
               (((((a @ verb) @ l1) @ f1) @ l2) @ f2) (tail @ []) r"
    unfolding seq_span_Literal using s7 by blast
  have s5: "seq_span [Dot_star, Literal tail, Word_boundary]
               ((((a @ verb) @ l1) @ f1) @ l2) (f2 @ tail @ []) r"
    unfolding seq_span_Dot_star using s6 f2 by blast
  have s4: "seq_span [Literal l2, Dot_star, Literal tail, Word_boundary]
               (((a @ verb) @ l1) @ f1) (l2 @ f2 @ tail @ []) r"
    unfolding seq_span_Literal using s5 by blast
  have s3: "seq_span [Dot_star, Literal l2, Dot_star, Literal tail, Word_boundary]
               ((a @ verb) @ l1) (f1 @ l2 @ f2 @ tail @ []) r"
    unfolding seq_span_Dot_star using s4 f1 by blast
  have s2: "seq_span [Literal l1, Dot_star, Literal l2, Dot_star, Literal tail, Word_boundary]
               (a @ verb) (l1 @ f1 @ l2 @ f2 @ tail @ []) r"
    unfolding seq_span_Literal using s3 by blast
  have s1: "seq_span [Group ws, Literal l1, Dot_star, Literal l2, Dot_star, Literal tail,
               Word_boundary] a (verb @ l1 @ f1 @ l2 @ f2 @ tail @ []) r"
    unfolding seq_span_Group using s2 v by blast
  from s1 m have s1': "seq_span [Group ws, Literal l1, Dot_star, Literal l2, Dot_star,
               Literal tail, Word_boundary] a m r" by simp
  show ?L
    unfolding seq_span_Boundary using s1' b0 by blast
qed

lemma framed_search:
  assumes ws: "\<forall>w\<in>set ws. w \<noteq> [] \<and> is_word_char (hd w)"
    and t: "tail \<noteq> [] \<and> is_word_char (last tail)"
  shows "re_search [Word_boundary, Group ws, Literal l1, Dot_star, Literal l2, Dot_star,
            Literal tail, Word_boundary] s \<longleftrightarrow>
     (\<exists>pre verb f1 f2 post.
        s = pre @ verb @ l1 @ f1 @ l2 @ f2 @ tail @ post \<and> verb \<in> set ws \<and>
        newline \<notin> set f1 \<and> newline \<notin> set f2 \<and>
        (pre = [] \<or> \<not> is_word_char (last pre)) \<and> (post = [] \<or> \<not> is_word_char (hd post)))"
    (is "?L \<longleftrightarrow> ?R")
proof
  assume ?L
  then obtain a m r verb f1 f2 where "s = a @ m @ r" "m = verb @ l1 @ f1 @ l2 @ f2 @ tail"
    and rest: "verb \<in> set ws" "newline \<notin> set f1" "newline \<notin> set f2"
      "a = [] \<or> \<not> is_word_char (last a)" "r = [] \<or> \<not> is_word_char (hd r)"
    unfolding re_search_iff framed_span[OF ws t] by blast
  then have "s = a @ verb @ l1 @ f1 @ l2 @ f2 @ tail @ r" by simp
  with rest show ?R by blast
next
  assume ?R
  then obtain pre verb f1 f2 post where s: "s = pre @ verb @ l1 @ f1 @ l2 @ f2 @ tail @ post"
    and rest: "verb \<in> set ws" "newline \<notin> set f1" "newline \<notin> set f2"
      "pre = [] \<or> \<not> is_word_char (last pre)" "post = [] \<or> \<not> is_word_char (hd post)"
    by blast
  from s have "s = pre @ (verb @ l1 @ f1 @ l2 @ f2 @ tail) @ post" by simp
  with rest show ?L
    unfolding re_search_iff framed_span[OF ws t] by blast
qed

lemma all_on_search:
  "re_search pattern_all_on s \<longleftrightarrow>
     (\<exists>pre verb f1 f2 post.
        s = pre @ verb @ '' '' @ f1 @ '' all '' @ f2 @ '' on'' @ post \<and>
        (verb = ''turn'' \<or> verb = ''switch'') \<and> newline \<notin> set f1 \<and> newline \<notin> set f2 \<and>
        (pre = [] \<or> \<not> is_word_char (last pre)) \<and> (post = [] \<or> \<not> is_word_char (hd post)))"
proof -
  have ws: "\<forall>w\<in>set [''turn'', ''switch'']. w \<noteq> [] \<and> is_word_char (hd w)"
    by (simp add: word_chars)
  have t: "'' on'' \<noteq> [] \<and> is_word_char (last '' on'')"
    by (simp add: word_chars)
  have v: "verb \<in> set [''turn'', ''switch''] \<longleftrightarrow> verb = ''turn'' \<or> verb = ''switch''" for verb
    by (simp only: list.set insert_iff empty_iff simp_thms)
  show ?thesis
    unfolding pattern_all_on_def framed_search[OF ws t] v ..
qed

lemma all_off_search:
  "re_search pattern_all_off s \<longleftrightarrow>
     (\<exists>pre verb f1 f2 post.
        s = pre @ verb @ '' '' @ f1 @ '' all '' @ f2 @ '' off'' @ post \<and>
        (verb = ''turn'' \<or> verb = ''switch'') \<and> newline \<notin> set f1 \<and> newline \<notin> set f2 \<and>
        (pre = [] \<or> \<not> is_word_char (last pre)) \<and> (post = [] \<or> \<not> is_word_char (hd post)))"
proof -
  have ws: "\<forall>w\<in>set [''turn'', ''switch'']. w \<noteq> [] \<and> is_word_char (hd w)"
    by (simp add: word_chars)
  have t: "'' off'' \<noteq> [] \<and> is_word_char (last '' off'')"
    by (simp add: word_chars)
  have v: "verb \<in> set [''turn'', ''switch''] \<longleftrightarrow> verb = ''turn'' \<or> verb = ''switch''" for verb
    by (simp only: list.set insert_iff empty_iff simp_thms)
  show ?thesis
    unfolding pattern_all_off_def framed_search[OF ws t] v ..
qed

subsection \<open>Order of the table and of the fallback\<close>

lemma scan_table_earliest:
  assumes i: "i < length tbl"
    and hit: "\<exists>p\<in>set (fst (tbl ! i)). sublist p utt"
    and miss: "\<forall>entry\<in>set (take i tbl). \<forall>p\<in>set (fst entry). \<not> sublist p utt"
  shows "scan_table tbl utt = Some (snd (tbl ! i))"
proof (rule scan_table_first_hit[OF i])
  show "scan_phrases (fst (tbl ! i)) utt"
    using hit by (simp add: scan_phrases_iff)
  show "\<forall>k<i. \<not> scan_phrases (fst (tbl ! k)) utt"
  proof (intro allI impI)
    fix k assume k: "k < i"
    with i have "tbl ! k \<in> set (take i tbl)"
      by (metis length_take min.absorb2 less_imp_le nth_mem nth_take)
    with miss show "\<not> scan_phrases (fst (tbl ! k)) utt"
      by (simp add: scan_phrases_iff)
  qed
qed

text \<open>
  C2. First match wins, in the order of the table: when a phrase of entry \<open>i\<close> occurs in
  the lowered utterance and no phrase of an entry declared before \<open>i\<close> does, the matcher
  returns the endpoint of entry \<open>i\<close>, whatever phrases of later entries occur as well and
  whether or not a fallback pattern matches. So of two entries with phrases in the
  utterance the earlier one decides, and a table hit always prevails over the patterns.
\<close>

theorem table_order_first_match:
  assumes "i < length command_map"
    and "\<exists>p\<in>set (fst (command_map ! i)). sublist p (lower utt)"
    and "\<forall>entry\<in>set (take i command_map). \<forall>p\<in>set (fst entry). \<not> sublist p (lower utt)"
  shows "match_command utt = Some (snd (command_map ! i))"
  using scan_table_earliest[OF assms] by (rule match_command_table)

text \<open>
  \<open>Fan on and LED on\<close> has phrases of the entries 2 and 6 and gives the endpoint of entry
  2, although the phrase of entry 6 comes first in the utterance; \<open>turn it all the way fan
  on\<close> has a phrase of entry 6, matches the \<open>all ... on\<close> pattern, and gives \<open>fan/on\<close>.
\<close>

theorem table_order_first_match_witness:
  "sublist ''fan on'' (lower ''Fan on and LED on'') \<and>
   sublist ''led on'' (lower ''Fan on and LED on'') \<and>
   match_command ''Fan on and LED on'' = Some ''led/on'' \<and>
   sublist ''fan on'' (lower ''turn it all the way fan on'') \<and>
   re_search pattern_all_on (lower ''turn it all the way fan on'') \<and>
   match_command ''turn it all the way fan on'' = Some ''fan/on''"
proof -
  have a1: "(2::nat) < length command_map" by code_simp
  have a2: "\<exists>p\<in>set (fst (command_map ! 2)). sublist p (lower ''Fan on and LED on'')"
    by code_simp
  have a3: "\<forall>entry\<in>set (take 2 command_map). \<forall>p\<in>set (fst entry).
              \<not> sublist p (lower ''Fan on and LED on'')"
    by code_simp
  have a4: "snd (command_map ! 2) = ''led/on''" by code_simp
  have a: "match_command ''Fan on and LED on'' = Some ''led/on''"
    using table_order_first_match[OF a1 a2 a3] a4 by simp
  have b1: "(6::nat) < length command_map" by code_simp
  have b2: "\<exists>p\<in>set (fst (command_map ! 6)). sublist p (lower ''turn it all the way fan on'')"
    by code_simp
  have b3: "\<forall>entry\<in>set (take 6 command_map). \<forall>p\<in>set (fst entry).
              \<not> sublist p (lower ''turn it all the way fan on'')"
    by code_simp
  have b4: "snd (command_map ! 6) = ''fan/on''" by code_simp
  have b: "match_command ''turn it all the way fan on'' = Some ''fan/on''"
    using table_order_first_match[OF b1 b2 b3] b4 by simp
  have c1: "sublist ''fan on'' (lower ''Fan on and LED on'')" by code_simp
  have c2: "sublist ''led on'' (lower ''Fan on and LED on'')" by code_simp
  have c3: "sublist ''fan on'' (lower ''turn it all the way fan on'')" by code_simp
  have c4: "re_search pattern_all_on (lower ''turn it all the way fan on'')" by code_simp
  from a b c1 c2 c3 c4 show ?thesis by blast
qed

subsection \<open>The fallback patterns\<close>

text \<open>
  \<open>switch all the lights on\<close> is a verb, \<open>all\<close>, filler words and \<open>on\<close>, with no filler
  between the verb and \<open>all\<close>, and has no phrase of the table. The pattern asks for a
  space on each side of each filler, hence for two spaces between the verb and \<open>all\<close>
  when the filler is empty: the matcher returns \<open>None\<close>.
\<close>

theorem fallback_no_filler_counterexample:
  "''switch all the lights on'' = ''switch'' @ '' '' @ ''all'' @ '' '' @ ''the lights'' @ '' '' @ ''on'' \<and>
   scan_table command_map (lower ''switch all the lights on'') = None \<and>
   match_command ''switch all the lights on'' = None"
  by code_simp

text \<open>
  C3, as the code has it. When no phrase of the table occurs in the lowered utterance,
  the result is decided by the two patterns in order: \<open>all/on\<close> if the first matches,
  else \<open>all/off\<close> if the second matches, else \<open>None\<close>. The first pattern matches a text
  iff the text is, from a word boundary to a word boundary, \<open>turn\<close> or \<open>switch\<close>, a space,
  a filler, \<open>all\<close> between two spaces, a filler, a space and \<open>on\<close>, where a filler is any
  run of characters without a newline (possibly empty) and is delimited by spaces of its
  own; the second pattern likewise with \<open>off\<close>. The patterns are applied to the lowered
  text, which makes them case-insensitive.
\<close>

theorem fallback_patterns:
  "((\<forall>entry\<in>set command_map. \<forall>p\<in>set (fst entry). \<not> sublist p (lower utt)) \<longrightarrow>
      match_command utt =
        (if re_search pattern_all_on (lower utt) then Some ''all/on''
         else if re_search pattern_all_off (lower utt) then Some ''all/off'' else None)) \<and>
   (re_search pattern_all_on s \<longleftrightarrow>
     (\<exists>pre verb f1 f2 post.
        s = pre @ verb @ '' '' @ f1 @ '' all '' @ f2 @ '' on'' @ post \<and>
        (verb = ''turn'' \<or> verb = ''switch'') \<and> newline \<notin> set f1 \<and> newline \<notin> set f2 \<and>
        (pre = [] \<or> \<not> is_word_char (last pre)) \<and> (post = [] \<or> \<not> is_word_char (hd post)))) \<and>
   (re_search pattern_all_off s \<longleftrightarrow>
     (\<exists>pre verb f1 f2 post.
        s = pre @ verb @ '' '' @ f1 @ '' all '' @ f2 @ '' off'' @ post \<and>
        (verb = ''turn'' \<or> verb = ''switch'') \<and> newline \<notin> set f1 \<and> newline \<notin> set f2 \<and>
        (pre = [] \<or> \<not> is_word_char (last pre)) \<and> (post = [] \<or> \<not> is_word_char (hd post))))"
proof (intro conjI impI)
  assume "\<forall>entry\<in>set command_map. \<forall>p\<in>set (fst entry). \<not> sublist p (lower utt)"
  then have "scan_table command_map (lower utt) = None"
    by (simp add: scan_table_None_iff scan_phrases_iff)
  then show "match_command utt =
        (if re_search pattern_all_on (lower utt) then Some ''all/on''
         else if re_search pattern_all_off (lower utt) then Some ''all/off'' else None)"
    by (rule match_command_fallback)
qed (rule all_on_search, rule all_off_search)

text \<open>\<open>Switch it all the way on\<close> has no phrase of the table and has the shape of the first
  pattern, with the fillers \<open>it\<close> and \<open>the way\<close>.\<close>

theorem fallback_patterns_witness:
  "list_all (\<lambda>entry. list_all (\<lambda>p. \<not> sublist p (lower ''Switch it all the way on'')) (fst entry))
     command_map \<and>
   lower ''Switch it all the way on'' = [] @ ''switch'' @ '' '' @ ''it'' @ '' all '' @ ''the way'' @ '' on'' @ [] \<and>
   match_command ''Switch it all the way on'' = Some ''all/on''"
proof -
  let ?u = "''Switch it all the way on''"
  have h: "list_all (\<lambda>entry. list_all (\<lambda>p. \<not> sublist p (lower ?u)) (fst entry)) command_map"
    by code_simp
  then have h': "\<forall>entry\<in>set command_map. \<forall>p\<in>set (fst entry). \<not> sublist p (lower ?u)"
    by (simp add: list_all_iff)
  have d: "lower ?u = [] @ ''switch'' @ '' '' @ ''it'' @ '' all '' @ ''the way'' @ '' on'' @ []"
    by code_simp
  have n1: "newline \<notin> set ''it''" by code_simp
  have n2: "newline \<notin> set ''the way''" by code_simp
  note inst = fallback_patterns[of ?u "lower ?u"]
  have "\<exists>pre verb f1 f2 post.
        lower ?u = pre @ verb @ '' '' @ f1 @ '' all '' @ f2 @ '' on'' @ post \<and>
        (verb = ''turn'' \<or> verb = ''switch'') \<and> newline \<notin> set f1 \<and> newline \<notin> set f2 \<and>
        (pre = [] \<or> \<not> is_word_char (last pre)) \<and> (post = [] \<or> \<not> is_word_char (hd post))"
    using d n1 n2 by blast
  with inst have s: "re_search pattern_all_on (lower ?u)" by blast
  from inst h' have "match_command ?u =
        (if re_search pattern_all_on (lower ?u) then Some ''all/on''
         else if re_search pattern_all_off (lower ?u) then Some ''all/off'' else None)"
    by blast
  with s have "match_command ?u = Some ''all/on''" by simp
  with h d show ?thesis by blast
qed

section \<open>Properties of the dispatcher\<close>

lemma gets_append [simp]: "gets (fx @ fy) = gets fx @ gets fy"
  by (induction fx rule: gets.induct) simp_all

lemma matched_append [simp]: "matched (fx @ fy) = matched fx @ matched fy"
  by (induction fx rule: matched.induct) simp_all

lemma send_command_Response:
  "send_command c (Response status) path =
     (if 400 \<le> status \<and> status < 600
      then ([Log Debug, Http_get (url_of c path), Log Warning], Inr False)
      else ([Log Debug, Http_get (url_of c path), Log Info], Inr True))"
  by (simp add: send_command_def try_get_def raise_for_status_def)

lemma send_command_raises:
  "send_command c (Get_raises x) path =
     (if x = Request_exception
      then ([Log Debug, Http_get (url_of c path), Log Warning], Inr False)
      else ([Log Debug, Http_get (url_of c path)], Inl x))"
  by (simp add: send_command_def try_get_def)

lemma send_command_gets: "gets (fst (send_command c outcome path)) = [url_of c path]"
  by (cases outcome) (simp_all add: send_command_Response send_command_raises)

lemma send_command_matched: "matched (fst (send_command c outcome path)) = []"
  by (cases outcome) (simp_all add: send_command_Response send_command_raises)

lemma send_command_True_iff:
  "snd (send_command c outcome path) = Inr True \<longleftrightarrow>
     (\<exists>status. outcome = Response status \<and> \<not> (400 \<le> status \<and> status < 600))"
  by (cases outcome) (auto simp: send_command_Response send_command_raises)

text \<open>
  C5. \<open>send_command\<close> calls \<open>session.get\<close> once, with the URL made of the configured
  host and the path. It returns \<open>True\<close> iff the call returns a response whose status
  \<open>raise_for_status\<close> lets pass; this is so for every status from 200 to 399. For a
  response with a status from 400 to 599 and for a \<open>RequestException\<close> raised by the call
  it logs a warning and returns \<open>False\<close>: no exception reaches the caller.
\<close>

theorem send_command_reports:
  "send_command c (Response status) path =
     (if 400 \<le> status \<and> status < 600
      then ([Log Debug, Http_get (url_of c path), Log Warning], Inr False)
      else ([Log Debug, Http_get (url_of c path), Log Info], Inr True)) \<and>
   send_command c (Get_raises Request_exception) path =
     ([Log Debug, Http_get (url_of c path), Log Warning], Inr False) \<and>
   url_of c path = ''http://'' @ esp32_ip c @ ''/'' @ path \<and>
   gets (fst (send_command c outcome path)) = [url_of c path] \<and>
   (snd (send_command c outcome path) = Inr True \<longleftrightarrow>
      (\<exists>status. outcome = Response status \<and> \<not> (400 \<le> status \<and> status < 600))) \<and>
   (200 \<le> status \<and> status < 400 \<longrightarrow> snd (send_command c (Response status) path) = Inr True)"
proof -
  have "200 \<le> status \<and> status < 400 \<longrightarrow> snd (send_command c (Response status) path) = Inr True"
    by (simp add: send_command_Response)
  moreover have "send_command c (Get_raises Request_exception) path =
     ([Log Debug, Http_get (url_of c path), Log Warning], Inr False)"
    by (simp add: send_command_raises)
  moreover have "url_of c path = ''http://'' @ esp32_ip c @ ''/'' @ path"
    by (simp only: url_of_def)
  ultimately show ?thesis
    using send_command_Response[of c status path] send_command_gets[of c outcome path]
      send_command_True_iff[of c outcome path]
    by (simp only: simp_thms)
qed

text \<open>The status 204 is reported as success, the status 404 as failure with a warning.\<close>

theorem send_command_reports_witness:
  "(200::nat) \<le> 204 \<and> (204::nat) < 400 \<and>
   send_command (init ''192.168.0.172'') (Response 204) ''fan/on'' =
     ([Log Debug, Http_get ''http://192.168.0.172/fan/on'', Log Info], Inr True) \<and>
   send_command (init ''192.168.0.172'') (Response 404) ''fan/on'' =
     ([Log Debug, Http_get ''http://192.168.0.172/fan/on'', Log Warning], Inr False)"
proof -
  have u: "url_of (init ''192.168.0.172'') ''fan/on'' = ''http://192.168.0.172/fan/on''"
    by code_simp
  have a: "(200::nat) \<le> 204 \<and> (204::nat) < 400" by simp
  have "send_command (init ''192.168.0.172'') (Response 204) ''fan/on'' =
     ([Log Debug, Http_get (url_of (init ''192.168.0.172'') ''fan/on''), Log Info], Inr True)"
    using send_command_reports[of "init ''192.168.0.172''" 204 "''fan/on''" "Response 204"]
    by simp
  moreover have "send_command (init ''192.168.0.172'') (Response 404) ''fan/on'' =
     ([Log Debug, Http_get (url_of (init ''192.168.0.172'') ''fan/on''), Log Warning], Inr False)"
    using send_command_reports[of "init ''192.168.0.172''" 404 "''fan/on''" "Response 404"]
    by simp
  ultimately show ?thesis
    using a unfolding u by blast
qed

section \<open>Properties of the control loop\<close>

subsection \<open>Requests of an iteration\<close>

lemma send_command_handled:
  assumes "\<forall>x. outcome = Get_raises x \<longrightarrow> x = Request_exception"
  shows "\<exists>b. snd (send_command c outcome path) = Inr b"
  using assms by (cases outcome) (auto simp: send_command_Response send_command_raises)

lemma send_all_handled:
  assumes "\<forall>p x. ans p = Get_raises x \<longrightarrow> x = Request_exception"
  shows "send_all c ans es =
     (concat (map (\<lambda>p. fst (send_command c (ans p) p) @ [Sleep 100]) es), Inr ())"
proof (induction es)
  case Nil
  show ?case by simp
next
  case (Cons e es)
  from assms have "\<forall>x. ans e = Get_raises x \<longrightarrow> x = Request_exception" by blast
  from send_command_handled[OF this, of c e]
  obtain b where b: "snd (send_command c (ans e) e) = Inr b" by blast
  obtain fx where fx: "send_command c (ans e) e = (fx, Inr b)"
    using b by (cases "send_command c (ans e) e") auto
  show ?case
    using Cons fx by simp
qed

lemma gets_send_all_steps:
  "gets (concat (map (\<lambda>p. fst (send_command c (ans p) p) @ [Sleep 100]) es)) = map (url_of c) es"
  by (induction es) (simp_all add: send_command_gets)

lemma url_of_inject: "url_of c p = url_of c q \<longleftrightarrow> p = q"
  by (simp add: url_of_def)

lemma url_of_stop: "url_of (snd (stop c)) p = url_of c p"
  by (simp add: url_of_def stop_def)

lemma gets_send_all: "set (gets (fst (send_all c ans es))) \<subseteq> url_of c ` set es"
proof (induction es)
  case Nil
  show ?case by simp
next
  case (Cons e es)
  obtain fx r where s: "send_command c (ans e) e = (fx, r)" by (cases "send_command c (ans e) e")
  have g: "gets fx = [url_of c e]" using send_command_gets[of c "ans e" e] s by simp
  show ?case
  proof (cases r)
    case (Inl x)
    with s g show ?thesis by simp
  next
    case (Inr b)
    obtain fx' r' where t: "send_all c ans es = (fx', r')" by (cases "send_all c ans es")
    with Cons have "set (gets fx') \<subseteq> url_of c ` set es" by simp
    with s g Inr t show ?thesis by auto
  qed
qed

lemma gets_dispatch:
  assumes "endpoint \<in> snd ` set command_map"
  shows "set (gets (fst (dispatch c ans endpoint))) \<subseteq> url_of c ` set concrete_endpoints"
proof -
  consider "endpoint = ''all/on''" | "endpoint = ''all/off''"
    | "endpoint \<noteq> ''all/on''" "endpoint \<noteq> ''all/off''" by blast
  then show ?thesis
  proof cases
    case 1
    have "set (gets (fst (send_all c ans [''led/on'', ''light/on'', ''projector/on'', ''fan/on''])))
            \<subseteq> url_of c ` set [''led/on'', ''light/on'', ''projector/on'', ''fan/on'']"
      by (rule gets_send_all)
    also have "\<dots> \<subseteq> url_of c ` set concrete_endpoints"
      unfolding concrete_endpoints_def by (intro image_mono) auto
    finally show ?thesis
      using 1 by (simp add: dispatch_def case_prod_beta del: send_all.simps)
  next
    case 2
    have "set (gets (fst (send_all c ans [''led/off'', ''light/off'', ''projector/off'', ''fan/off''])))
            \<subseteq> url_of c ` set [''led/off'', ''light/off'', ''projector/off'', ''fan/off'']"
      by (rule gets_send_all)
    also have "\<dots> \<subseteq> url_of c ` set concrete_endpoints"
      unfolding concrete_endpoints_def by (intro image_mono) auto
    finally show ?thesis
      using 2 by (simp add: dispatch_def case_prod_beta del: send_all.simps)
  next
    case 3
    with assms have mem: "endpoint \<in> set concrete_endpoints"
      unfolding command_map_endpoints concrete_endpoints_def by auto
    obtain fx r where s: "send_command c (ans endpoint) endpoint = (fx, r)"
      by (cases "send_command c (ans endpoint) endpoint")
    have g: "gets fx = [url_of c endpoint]"
      using send_command_gets[of c "ans endpoint" endpoint] s by simp
    have "fst (dispatch c ans endpoint) = fx"
      using 3 s by (cases r) (simp_all add: dispatch_def)
    with g mem show ?thesis by simp
  qed
qed

lemma listen_once_quiet:
  "gets (fst (listen_once outcome)) = [] \<and> matched (fst (listen_once outcome)) = []"
  by (cases outcome) (simp_all add: listen_once_def)

lemma matched_send_all: "matched (fst (send_all c ans es)) = []"
proof (induction es)
  case Nil
  show ?case by simp
next
  case (Cons e es)
  obtain fx r where s: "send_command c (ans e) e = (fx, r)" by (cases "send_command c (ans e) e")
  have g: "matched fx = []" using send_command_matched[of c "ans e" e] s by simp
  obtain fx' r' where t: "send_all c ans es = (fx', r')" by (cases "send_all c ans es")
  with Cons have "matched fx' = []" by simp
  with s g t show ?case by (cases r) simp_all
qed

lemma matched_dispatch: "matched (fst (dispatch c ans endpoint)) = []"
proof -
  obtain fx r where s: "send_command c (ans endpoint) endpoint = (fx, r)"
    by (cases "send_command c (ans endpoint) endpoint")
  have g: "matched fx = []" using send_command_matched[of c "ans endpoint" endpoint] s by simp
  show ?thesis
    using matched_send_all[of c ans "[''led/on'', ''light/on'', ''projector/on'', ''fan/on'']"]
      matched_send_all[of c ans "[''led/off'', ''light/off'', ''projector/off'', ''fan/off'']"]
      s g
    by (cases r) (simp_all add: dispatch_def case_prod_beta del: send_all.simps)
qed

lemma match_command_empty: "match_command [] = None"
  by code_simp

lemma run_cycle_miss:
  assumes "snd (listen_once (heard cy)) = Inr None \<or> snd (listen_once (heard cy)) = Inr (Some [])"
  shows "run_cycle c pause cy = (fst (listen_once (heard cy)) @ [Sleep pause], Inr ())"
proof -
  obtain fx r where l: "listen_once (heard cy) = (fx, r)" by (cases "listen_once (heard cy)")
  with assms have "r = Inr None \<or> r = Inr (Some [])" by simp
  then show ?thesis
    using l by (auto simp: run_cycle_def)
qed

lemma run_cycle_Heard:
  assumes h: "heard cy = Heard t" and m: "match_command (lower t) = Some endpoint"
    and e: "endpoint \<noteq> []"
  shows "run_cycle c pause cy =
     ([Listen, Log Info, Match (lower t)] @ fst (dispatch c (answers cy) endpoint),
      snd (dispatch c (answers cy) endpoint))"
proof -
  have "lower t \<noteq> []" using m match_command_empty by auto
  then show ?thesis
    using h m e by (simp add: run_cycle_def listen_once_def case_prod_beta)
qed

lemma run_cycle_cases:
  "(\<exists>fx. fst (run_cycle c pause cy) = fx \<and> gets fx = [] \<and> matched fx = []) \<or>
   (\<exists>utt. utt \<noteq> [] \<and> match_command utt = None \<and> gets (fst (run_cycle c pause cy)) = [] \<and>
      matched (fst (run_cycle c pause cy)) = [utt]) \<or>
   (\<exists>utt endpoint fx. utt \<noteq> [] \<and> match_command utt = Some endpoint \<and>
      fst (run_cycle c pause cy) = fx @ [Match utt] @ fst (dispatch c (answers cy) endpoint) \<and>
      gets fx = [] \<and> matched fx = [])"
proof -
  obtain fx r where l: "listen_once (heard cy) = (fx, r)" by (cases "listen_once (heard cy)")
  have q: "gets fx = []" "matched fx = []"
    using listen_once_quiet[of "heard cy"] l by simp_all
  show ?thesis
  proof (cases r)
    case (Inl x)
    with l q show ?thesis by (simp add: run_cycle_def)
  next
    case (Inr utt)
    show ?thesis
    proof (cases utt)
      case None
      with l q Inr show ?thesis by (simp add: run_cycle_def)
    next
      case (Some t)
      show ?thesis
      proof (cases "t = []")
        case True
        with l q Inr Some show ?thesis by (simp add: run_cycle_def)
      next
        case False
        show ?thesis
        proof (cases "match_command t")
          case None
          with l q Inr Some False show ?thesis by (simp add: run_cycle_def)
        next
          case (Some endpoint)
          show ?thesis
          proof (cases "endpoint = []")
            case True
            have "fst (run_cycle c pause cy) = fx @ [Match t] @ fst (dispatch c (answers cy) endpoint)
                  \<or> fst (run_cycle c pause cy) = fx @ [Match t]"
              using l Inr \<open>utt = Some t\<close> False Some True by (simp add: run_cycle_def)
            moreover have "endpoint \<in> snd ` set command_map"
              using match_command_cases[of t] Some by auto
            then have "endpoint \<noteq> []"
              unfolding command_map_endpoints by auto
            ultimately show ?thesis using True by simp
          next
            case nonempty: False
            have "fst (run_cycle c pause cy) = fx @ [Match t] @ fst (dispatch c (answers cy) endpoint)"
              using l Inr \<open>utt = Some t\<close> False Some nonempty
              by (simp add: run_cycle_def case_prod_beta)
            with q False Some show ?thesis by blast
          qed
        qed
      qed
    qed
  qed
qed

lemma run_cycle_gets:
  "set (gets (fst (run_cycle c pause cy))) \<subseteq> url_of c ` set concrete_endpoints"
  using run_cycle_cases[of c pause cy]
proof (elim disjE exE conjE)
  fix utt endpoint fx
  assume m: "match_command utt = Some endpoint"
    and f: "fst (run_cycle c pause cy) = fx @ [Match utt] @ fst (dispatch c (answers cy) endpoint)"
    and g: "gets fx = []"
  have "endpoint \<in> snd ` set command_map"
    using match_command_cases[of "utt"] m by auto
  from gets_dispatch[OF this, of c "answers cy"] f g show ?thesis by simp
qed simp_all

lemma run_cycle_matched: "[] \<notin> set (matched (fst (run_cycle c pause cy)))"
  using run_cycle_cases[of c pause cy]
  by (elim disjE exE conjE) (simp_all add: matched_dispatch)

lemma run_loop_stopped: "\<not> running c \<Longrightarrow> run_loop c pause script = (c, [], Stopped)"
  by (cases script) simp_all

lemma stop_not_running: "\<not> running (snd (stop c))"
  by (simp add: stop_def)

lemma run_loop_gets:
  "set (gets (fst (snd (run_loop c pause script)))) \<subseteq> url_of c ` set concrete_endpoints"
proof (induction script arbitrary: c)
  case Nil
  show ?case by simp
next
  case (Cons cy rest)
  show ?case
  proof (cases "running c")
    case False
    then show ?thesis by simp
  next
    case True
    obtain fx r where rc: "run_cycle c pause cy = (fx, r)" by (cases "run_cycle c pause cy")
    have g: "set (gets fx) \<subseteq> url_of c ` set concrete_endpoints"
      using run_cycle_gets[of c pause cy] rc by simp
    show ?thesis
    proof (cases r)
      case (Inl x)
      with True rc g show ?thesis by simp
    next
      case (Inr u)
      let ?c' = "if stop_signal cy then snd (stop c) else c"
      have u: "url_of ?c' = url_of c"
        by (rule ext) (simp add: url_of_stop)
      have "set (gets (fst (snd (run_loop ?c' pause rest)))) \<subseteq> url_of c ` set concrete_endpoints"
        using Cons[of ?c'] unfolding u .
      with True rc g Inr show ?thesis
        by (simp add: case_prod_beta del: run_loop.simps(2)) (simp add: rc Inr True case_prod_beta)
    qed
  qed
qed

subsection \<open>The loop and the run flag\<close>

lemma run_loop_step:
  assumes "running c" and "run_cycle c pause cy = (fx, Inr u)"
  shows "run_loop c pause (cy # rest) =
     (fst (run_loop (if stop_signal cy then snd (stop c) else c) pause rest),
      fx @ fst (snd (run_loop (if stop_signal cy then snd (stop c) else c) pause rest)),
      snd (snd (run_loop (if stop_signal cy then snd (stop c) else c) pause rest)))"
  using assms by (simp add: case_prod_beta)

lemma run_loop_raise:
  assumes "running c" and "run_cycle c pause cy = (fx, Inl x)"
  shows "run_loop c pause (cy # rest) =
     (if stop_signal cy then snd (stop c) else c, fx, Raised x)"
  using assms by simp

lemma run_loop_matched: "[] \<notin> set (matched (fst (snd (run_loop c pause script))))"
proof (induction script arbitrary: c)
  case Nil
  show ?case by simp
next
  case (Cons cy rest)
  show ?case
  proof (cases "running c")
    case False
    then show ?thesis by (simp add: run_loop_stopped)
  next
    case True
    obtain fx r where rc: "run_cycle c pause cy = (fx, r)" by (cases "run_cycle c pause cy")
    have g: "[] \<notin> set (matched fx)"
      using run_cycle_matched[of c pause cy] rc by simp
    show ?thesis
    proof (cases r)
      case (Inl x)
      with True rc g show ?thesis by (simp add: run_loop_raise)
    next
      case (Inr u)
      with True rc g Cons show ?thesis by (simp add: run_loop_step del: run_loop.simps)
    qed
  qed
qed

lemma run_loop_running: "running (fst (run_loop c pause script)) \<Longrightarrow> running c"
proof (induction script arbitrary: c)
  case Nil
  then show ?case by simp
next
  case (Cons cy rest)
  show ?case
  proof (rule ccontr)
    assume "\<not> running c"
    then have "run_loop c pause (cy # rest) = (c, [], Stopped)" by (rule run_loop_stopped)
    with Cons.prems \<open>\<not> running c\<close> show False by simp
  qed
qed

lemma run_loop_after_stop:
  "stop_signal cy \<Longrightarrow> run_loop c pause (pre @ cy # post) = run_loop c pause (pre @ [cy])"
proof (induction pre arbitrary: c)
  case Nil
  show ?case
  proof (cases "running c")
    case False
    then show ?thesis by (simp add: run_loop_stopped)
  next
    case True
    obtain fx r where rc: "run_cycle c pause cy = (fx, r)" by (cases "run_cycle c pause cy")
    show ?thesis
    proof (cases r)
      case (Inl x)
      with True rc show ?thesis by (simp add: run_loop_raise)
    next
      case (Inr u)
      have "run_loop (snd (stop c)) pause post = run_loop (snd (stop c)) pause []"
        by (simp add: run_loop_stopped stop_not_running)
      with True rc Inr Nil show ?thesis
        by (simp add: run_loop_step del: run_loop.simps)
    qed
  qed
next
  case (Cons a pre)
  show ?case
  proof (cases "running c")
    case False
    then show ?thesis by (simp add: run_loop_stopped)
  next
    case True
    obtain fx r where rc: "run_cycle c pause a = (fx, r)" by (cases "run_cycle c pause a")
    show ?thesis
    proof (cases r)
      case (Inl x)
      with True rc show ?thesis by (simp add: run_loop_raise)
    next
      case (Inr u)
      with True rc Cons show ?thesis
        by (simp add: run_loop_step del: run_loop.simps)
    qed
  qed
qed

lemma run_loop_ends:
  "stop_signal cy \<Longrightarrow> snd (snd (run_loop c pause (pre @ [cy]))) \<noteq> Listening"
proof (induction pre arbitrary: c)
  case Nil
  show ?case
  proof (cases "running c")
    case False
    then show ?thesis by (simp add: run_loop_stopped)
  next
    case True
    obtain fx r where rc: "run_cycle c pause cy = (fx, r)" by (cases "run_cycle c pause cy")
    show ?thesis
    proof (cases r)
      case (Inl x)
      with True rc show ?thesis by (simp add: run_loop_raise)
    next
      case (Inr u)
      with True rc Nil show ?thesis
        by (simp add: run_loop_step run_loop_stopped stop_not_running del: run_loop.simps)
    qed
  qed
next
  case (Cons a pre)
  show ?case
  proof (cases "running c")
    case False
    then show ?thesis by (simp add: run_loop_stopped)
  next
    case True
    obtain fx r where rc: "run_cycle c pause a = (fx, r)" by (cases "run_cycle c pause a")
    show ?thesis
    proof (cases r)
      case (Inl x)
      with True rc show ?thesis by (simp add: run_loop_raise)
    next
      case (Inr u)
      with True rc Cons show ?thesis
        by (simp add: run_loop_step del: run_loop.simps)
    qed
  qed
qed

lemma run_after_stop:
  assumes "stop_signal cy"
  shows "run c ambient pause failure (pre @ cy # post) = run c ambient pause failure (pre @ [cy])"
proof -
  have eq: "run_loop c pause (pre @ cy # post) = run_loop c pause (pre @ [cy])"
    using assms by (rule run_loop_after_stop)
  show ?thesis
    unfolding run_def eq ..
qed

subsection \<open>Composite endpoints\<close>

lemma composite_cycle:
  assumes handled: "\<forall>p x. answers cy p = Get_raises x \<longrightarrow> x = Request_exception"
    and h: "heard cy = Heard t"
    and m: "match_command (lower t) = Some endpoint"
    and e: "endpoint = ''all/on'' \<and> es = [''led/on'', ''light/on'', ''projector/on'', ''fan/on''] \<or>
            endpoint = ''all/off'' \<and> es = [''led/off'', ''light/off'', ''projector/off'', ''fan/off'']"
  shows "run_cycle c pause cy =
           ([Listen, Log Info, Match (lower t), Log Info] @
              concat (map (\<lambda>p. fst (send_command c (answers cy p) p) @ [Sleep 100]) es), Inr ())"
    and "gets (fst (run_cycle c pause cy)) = map (url_of c) es"
proof -
  have d: "dispatch c (answers cy) endpoint = (Log Info # fst (send_all c (answers cy) es),
             snd (send_all c (answers cy) es))"
    using e by (auto simp: dispatch_def case_prod_beta simp del: send_all.simps)
  have ne: "endpoint \<noteq> []" using e by auto
  show r: "run_cycle c pause cy =
           ([Listen, Log Info, Match (lower t), Log Info] @
              concat (map (\<lambda>p. fst (send_command c (answers cy p) p) @ [Sleep 100]) es), Inr ())"
    unfolding run_cycle_Heard[OF h m ne] d send_all_handled[OF handled] by simp
  show "gets (fst (run_cycle c pause cy)) = map (url_of c) es"
    unfolding r by (simp add: gets_send_all_steps)
qed

lemma composite_not_requested:
  assumes "endpoint = ''all/on'' \<or> endpoint = ''all/off''"
  shows "url_of c endpoint \<notin> set (gets (fst (snd (run_loop c pause script))))"
proof
  assume "url_of c endpoint \<in> set (gets (fst (snd (run_loop c pause script))))"
  with run_loop_gets[of c pause script]
  have "url_of c endpoint \<in> url_of c ` set concrete_endpoints" by blast
  then have "endpoint \<in> set concrete_endpoints"
    by (auto simp: url_of_inject)
  with assms show False
    unfolding concrete_endpoints_def by auto
qed

text \<open>
  C4. When the matcher returns \<open>all/on\<close> for the heard text, the iteration calls
  \<open>send_command\<close> for \<open>led/on\<close>, \<open>light/on\<close>, \<open>projector/on\<close> and \<open>fan/on\<close>, in this
  order, each call followed by a sleep of 100 ms, whatever each call reports: a response
  with an error status or a \<open>RequestException\<close> makes the call return \<open>False\<close> and the
  loop goes on to the next member. Likewise for \<open>all/off\<close> with the four \<open>off\<close>
  endpoints. No run of the loop ever requests the URL of \<open>all/on\<close> or of \<open>all/off\<close>.
\<close>

theorem composite_expansion:
  "((\<forall>p x. answers cy p = Get_raises x \<longrightarrow> x = Request_exception) \<and>
    heard cy = Heard t \<and> match_command (lower t) = Some ''all/on'' \<longrightarrow>
      run_cycle c pause cy =
        ([Listen, Log Info, Match (lower t), Log Info] @
           concat (map (\<lambda>p. fst (send_command c (answers cy p) p) @ [Sleep 100])
             [''led/on'', ''light/on'', ''projector/on'', ''fan/on'']), Inr ()) \<and>
      gets (fst (run_cycle c pause cy)) =
        map (url_of c) [''led/on'', ''light/on'', ''projector/on'', ''fan/on'']) \<and>
   ((\<forall>p x. answers cy p = Get_raises x \<longrightarrow> x = Request_exception) \<and>
    heard cy = Heard t \<and> match_command (lower t) = Some ''all/off'' \<longrightarrow>
      run_cycle c pause cy =
        ([Listen, Log Info, Match (lower t), Log Info] @
           concat (map (\<lambda>p. fst (send_command c (answers cy p) p) @ [Sleep 100])
             [''led/off'', ''light/off'', ''projector/off'', ''fan/off'']), Inr ()) \<and>
      gets (fst (run_cycle c pause cy)) =
        map (url_of c) [''led/off'', ''light/off'', ''projector/off'', ''fan/off'']) \<and>
   url_of c ''all/on'' \<notin> set (gets (fst (snd (run_loop c pause script)))) \<and>
   url_of c ''all/off'' \<notin> set (gets (fst (snd (run_loop c pause script))))"
proof (intro conjI impI)
  assume a: "(\<forall>p x. answers cy p = Get_raises x \<longrightarrow> x = Request_exception) \<and>
    heard cy = Heard t \<and> match_command (lower t) = Some ''all/on''"
  then have a1: "\<forall>p x. answers cy p = Get_raises x \<longrightarrow> x = Request_exception"
    and a2: "heard cy = Heard t" and a3: "match_command (lower t) = Some ''all/on''" by blast+
  show "run_cycle c pause cy =
        ([Listen, Log Info, Match (lower t), Log Info] @
           concat (map (\<lambda>p. fst (send_command c (answers cy p) p) @ [Sleep 100])
             [''led/on'', ''light/on'', ''projector/on'', ''fan/on'']), Inr ())"
    by (rule composite_cycle(1)[OF a1 a2 a3]) blast
  show "gets (fst (run_cycle c pause cy)) =
        map (url_of c) [''led/on'', ''light/on'', ''projector/on'', ''fan/on'']"
    by (rule composite_cycle(2)[OF a1 a2 a3]) blast
next
  assume a: "(\<forall>p x. answers cy p = Get_raises x \<longrightarrow> x = Request_exception) \<and>
    heard cy = Heard t \<and> match_command (lower t) = Some ''all/off''"
  then have a1: "\<forall>p x. answers cy p = Get_raises x \<longrightarrow> x = Request_exception"
    and a2: "heard cy = Heard t" and a3: "match_command (lower t) = Some ''all/off''" by blast+
  show "run_cycle c pause cy =
        ([Listen, Log Info, Match (lower t), Log Info] @
           concat (map (\<lambda>p. fst (send_command c (answers cy p) p) @ [Sleep 100])
             [''led/off'', ''light/off'', ''projector/off'', ''fan/off'']), Inr ())"
    by (rule composite_cycle(1)[OF a1 a2 a3]) blast
  show "gets (fst (run_cycle c pause cy)) =
        map (url_of c) [''led/off'', ''light/off'', ''projector/off'', ''fan/off'']"
    by (rule composite_cycle(2)[OF a1 a2 a3]) blast
next
  show "url_of c ''all/on'' \<notin> set (gets (fst (snd (run_loop c pause script))))"
    by (rule composite_not_requested) blast
  show "url_of c ''all/off'' \<notin> set (gets (fst (snd (run_loop c pause script))))"
    by (rule composite_not_requested) blast
qed

text \<open>An iteration in which \<open>light/on\<close> answers 500 and \<open>projector/on\<close> raises a
  \<open>RequestException\<close>: all four requests are made.\<close>

theorem composite_expansion_witness:
  "match_command (lower ''Turn everything ON'') = Some ''all/on'' \<and>
   run_cycle (init ''esp'') 100
     \<lparr>heard = Heard ''Turn everything ON'',
      answers = (\<lambda>p. if p = ''light/on'' then Response 500
                     else if p = ''projector/on'' then Get_raises Request_exception
                     else Response 200),
      stop_signal = False\<rparr> =
     ([Listen, Log Info, Match ''turn everything on'', Log Info,
       Log Debug, Http_get ''http://esp/led/on'', Log Info, Sleep 100,
       Log Debug, Http_get ''http://esp/light/on'', Log Warning, Sleep 100,
       Log Debug, Http_get ''http://esp/projector/on'', Log Warning, Sleep 100,
       Log Debug, Http_get ''http://esp/fan/on'', Log Info, Sleep 100], Inr ())"
proof -
  let ?ans = "\<lambda>p. if p = ''light/on'' then Response 500
                     else if p = ''projector/on'' then Get_raises Request_exception
                     else Response 200"
  let ?cy = "\<lparr>heard = Heard ''Turn everything ON'', answers = ?ans, stop_signal = False\<rparr>"
  have h1: "\<forall>p x. answers ?cy p = Get_raises x \<longrightarrow> x = Request_exception" by simp
  have h2: "heard ?cy = Heard ''Turn everything ON''" by simp
  have h3: "match_command (lower ''Turn everything ON'') = Some ''all/on''" by code_simp
  have ev: "[Listen, Log Info, Match (lower ''Turn everything ON''), Log Info] @
           concat (map (\<lambda>p. fst (send_command (init ''esp'') (answers ?cy p) p) @ [Sleep 100])
             [''led/on'', ''light/on'', ''projector/on'', ''fan/on'']) =
     [Listen, Log Info, Match ''turn everything on'', Log Info,
       Log Debug, Http_get ''http://esp/led/on'', Log Info, Sleep 100,
       Log Debug, Http_get ''http://esp/light/on'', Log Warning, Sleep 100,
       Log Debug, Http_get ''http://esp/projector/on'', Log Warning, Sleep 100,
       Log Debug, Http_get ''http://esp/fan/on'', Log Info, Sleep 100]"
    by code_simp
  from composite_expansion[of ?cy "''Turn everything ON''" "init ''esp''" 100 "[]"] h1 h2 h3
  have "run_cycle (init ''esp'') 100 ?cy =
        ([Listen, Log Info, Match (lower ''Turn everything ON''), Log Info] @
           concat (map (\<lambda>p. fst (send_command (init ''esp'') (answers ?cy p) p) @ [Sleep 100])
             [''led/on'', ''light/on'', ''projector/on'', ''fan/on'']), Inr ())"
    by blast
  with ev h3 show ?thesis by simp
qed

text \<open>
  C6. The flag is true after \<open>__init__\<close> and false after \<open>stop\<close>. The loop never sets it:
  if it is true when the loop is left, it was true when the loop was entered. A loop
  entered with the flag false begins no iteration. When the handler runs during an
  iteration, the loop finishes that iteration and begins no other: the iterations that
  the script holds after it change nothing, and the loop is not left listening.
\<close>

theorem run_flag:
  "running (init ip) \<and>
   \<not> running (snd (stop c)) \<and>
   (running (fst (run_loop c pause script)) \<longrightarrow> running c) \<and>
   (\<not> running c \<longrightarrow> run_loop c pause script = (c, [], Stopped)) \<and>
   (stop_signal cy \<longrightarrow>
      run_loop c pause (pre @ cy # post) = run_loop c pause (pre @ [cy]) \<and>
      snd (snd (run_loop c pause (pre @ [cy]))) \<noteq> Listening \<and>
      run c ambient pause failure (pre @ cy # post) = run c ambient pause failure (pre @ [cy]))"
proof (intro conjI impI)
  show "running (init ip)" by (simp add: init_def)
  show "\<not> running (snd (stop c))" by (rule stop_not_running)
  show "running c" if "running (fst (run_loop c pause script))"
    using that by (rule run_loop_running)
  show "run_loop c pause script = (c, [], Stopped)" if "\<not> running c"
    using that by (rule run_loop_stopped)
  show "run_loop c pause (pre @ cy # post) = run_loop c pause (pre @ [cy])" if "stop_signal cy"
    using that by (rule run_loop_after_stop)
  show "snd (snd (run_loop c pause (pre @ [cy]))) \<noteq> Listening" if "stop_signal cy"
    using that by (rule run_loop_ends)
  show "run c ambient pause failure (pre @ cy # post) = run c ambient pause failure (pre @ [cy])"
    if "stop_signal cy"
    using that by (rule run_after_stop)
qed

text \<open>Three utterances, the interrupt arriving during the second: the third is never
  listened to.\<close>

theorem run_flag_witness:
  "stop_signal \<lparr>heard = Heard ''LED off'', answers = (\<lambda>p. Response 200), stop_signal = True\<rparr> \<and>
   run_loop (init ''esp'') 100
     [\<lparr>heard = Heard ''fan on'', answers = (\<lambda>p. Response 200), stop_signal = False\<rparr>,
      \<lparr>heard = Heard ''LED off'', answers = (\<lambda>p. Response 200), stop_signal = True\<rparr>,
      \<lparr>heard = Heard ''light on'', answers = (\<lambda>p. Response 200), stop_signal = False\<rparr>] =
     (\<lparr>esp32_ip = ''esp'', running = False\<rparr>,
      [Listen, Log Info, Match ''fan on'', Log Debug, Http_get ''http://esp/fan/on'', Log Info,
       Listen, Log Info, Match ''led off'', Log Debug, Http_get ''http://esp/led/off'', Log Info],
      Stopped) \<and>
   running (fst (run_loop (init ''esp'') 100
     [\<lparr>heard = Heard ''fan on'', answers = (\<lambda>p. Response 200), stop_signal = False\<rparr>])) \<and>
   run_loop (snd (stop (init ''esp''))) 100
     [\<lparr>heard = Heard ''fan on'', answers = (\<lambda>p. Response 200), stop_signal = False\<rparr>] =
     (snd (stop (init ''esp'')), [], Stopped)"
proof -
  let ?a = "\<lparr>heard = Heard ''fan on'', answers = (\<lambda>p. Response 200), stop_signal = False\<rparr>"
  let ?b = "\<lparr>heard = Heard ''LED off'', answers = (\<lambda>p. Response 200), stop_signal = True\<rparr>"
  let ?d = "\<lparr>heard = Heard ''light on'', answers = (\<lambda>p. Response 200), stop_signal = False\<rparr>"
  have s: "stop_signal ?b" by simp
  have e: "run_loop (init ''esp'') 100 ([?a] @ [?b]) =
     (\<lparr>esp32_ip = ''esp'', running = False\<rparr>,
      [Listen, Log Info, Match ''fan on'', Log Debug, Http_get ''http://esp/fan/on'', Log Info,
       Listen, Log Info, Match ''led off'', Log Debug, Http_get ''http://esp/led/off'', Log Info],
      Stopped)"
    by code_simp
  have r: "running (fst (run_loop (init ''esp'') 100 [?a]))" by code_simp
  have n: "\<not> running (snd (stop (init ''esp'')))"
    using run_flag[of "''esp''" "init ''esp''" 100 "[]" ?b "[]" "[]" 0 None] by blast
  have "run_loop (init ''esp'') 100 ([?a] @ ?b # [?d]) = run_loop (init ''esp'') 100 ([?a] @ [?b])"
    using run_flag[of "''esp''" "init ''esp''" 100 "[]" ?b "[?a]" "[?d]" 0 None] s by blast
  with e have e': "run_loop (init ''esp'') 100 [?a, ?b, ?d] =
     (\<lparr>esp32_ip = ''esp'', running = False\<rparr>,
      [Listen, Log Info, Match ''fan on'', Log Debug, Http_get ''http://esp/fan/on'', Log Info,
       Listen, Log Info, Match ''led off'', Log Debug, Http_get ''http://esp/led/off'', Log Info],
      Stopped)"
    by simp
  have "run_loop (snd (stop (init ''esp''))) 100 [?a] = (snd (stop (init ''esp'')), [], Stopped)"
    using run_flag[of "''esp''" "snd (stop (init ''esp''))" 100 "[?a]" ?b "[]" "[]" 0 None] n
    by blast
  with s e' r show ?thesis by blast
qed

text \<open>
  C10. When \<open>listen_once\<close> returns \<open>None\<close> or the empty string, the iteration consists of
  the listening, a sleep of \<open>pause\<close> and nothing else: the matcher is not called and no
  request is made. In no run of the loop is the matcher called with the empty text.
\<close>

theorem recognition_miss:
  "(snd (listen_once (heard cy)) = Inr None \<or> snd (listen_once (heard cy)) = Inr (Some []) \<longrightarrow>
      run_cycle c pause cy = (fst (listen_once (heard cy)) @ [Sleep pause], Inr ()) \<and>
      matched (fst (run_cycle c pause cy)) = [] \<and>
      gets (fst (run_cycle c pause cy)) = []) \<and>
   [] \<notin> set (matched (fst (snd (run_loop c pause script))))"
proof (intro conjI impI)
  assume a: "snd (listen_once (heard cy)) = Inr None \<or> snd (listen_once (heard cy)) = Inr (Some [])"
  show r: "run_cycle c pause cy = (fst (listen_once (heard cy)) @ [Sleep pause], Inr ())"
    using a by (rule run_cycle_miss)
  show "matched (fst (run_cycle c pause cy)) = []"
    unfolding r using listen_once_quiet[of "heard cy"] by simp
  show "gets (fst (run_cycle c pause cy)) = []"
    unfolding r using listen_once_quiet[of "heard cy"] by simp
next
  show "[] \<notin> set (matched (fst (snd (run_loop c pause script))))"
    by (rule run_loop_matched)
qed

text \<open>An empty recognition result and an unintelligible utterance.\<close>

theorem recognition_miss_witness:
  "snd (listen_once (Heard '''')) = Inr (Some []) \<and>
   run_cycle (init ''esp'') 100
     \<lparr>heard = Heard '''', answers = (\<lambda>p. Response 200), stop_signal = False\<rparr> =
     ([Listen, Log Info, Sleep 100], Inr ()) \<and>
   snd (listen_once (Listen_raises Unknown_value_error)) = Inr None \<and>
   run_cycle (init ''esp'') 100
     \<lparr>heard = Listen_raises Unknown_value_error, answers = (\<lambda>p. Response 200),
      stop_signal = False\<rparr> =
     ([Listen, Log Debug, Sleep 100], Inr ())"
proof -
  let ?a = "\<lparr>heard = Heard '''', answers = (\<lambda>p. Response 200), stop_signal = False\<rparr>"
  let ?b = "\<lparr>heard = Listen_raises Unknown_value_error, answers = (\<lambda>p. Response 200),
      stop_signal = False\<rparr>"
  have a1: "snd (listen_once (Heard '''')) = Inr (Some [])" by code_simp
  have a2: "fst (listen_once (Heard '''')) = [Listen, Log Info]" by code_simp
  have b1: "snd (listen_once (Listen_raises Unknown_value_error)) = Inr None" by code_simp
  have b2: "fst (listen_once (Listen_raises Unknown_value_error)) = [Listen, Log Debug]"
    by code_simp
  have "run_cycle (init ''esp'') 100 ?a = (fst (listen_once (heard ?a)) @ [Sleep 100], Inr ())"
    using recognition_miss[of ?a "init ''esp''" 100 "[]"] a1 by simp
  then have a: "run_cycle (init ''esp'') 100 ?a = ([Listen, Log Info, Sleep 100], Inr ())"
    using a2 by simp
  have "run_cycle (init ''esp'') 100 ?b = (fst (listen_once (heard ?b)) @ [Sleep 100], Inr ())"
    using recognition_miss[of ?b "init ''esp''" 100 "[]"] b1 by simp
  then have b: "run_cycle (init ''esp'') 100 ?b = ([Listen, Log Debug, Sleep 100], Inr ())"
    using b2 by simp
  from a1 a b1 b show ?thesis by blast
qed

end
